theory Spec2Isabelle
  imports Main "HOL-Library.Word"
begin

unbundle bit_operations_syntax

section \<open>Data model\<close>

text \<open>
  The class \<open>WasmBlake2s\<close> drives a WebAssembly instance through one linear memory.
  The model keeps the bytes of that memory, the addresses of the allocations that are
  outstanding, and the addresses \<open>iRef\<close> and \<open>oRef\<close> that the constructor reads from
  the instance (\<open>oEnd\<close> is \<open>oRef + DIGEST_SIZE\<close>). \<open>iCap\<close> is the capacity that the
  instance reserves for the scratch input at \<open>iRef\<close> (section 4.4 of the spec); the
  sources do not give it, so it is a parameter. \<open>hashCount\<close> is a ghost counter of the
  invocations of the hash primitive, so that "no hashing" can be stated.
\<close>

type_synonym byte = "8 word"

datatype error =
    RangeError          \<comment> \<open>a typed-array write outside the view\<close>
  | TypeError           \<comment> \<open>a property read on \<open>undefined\<close>\<close>
  | Trap                \<comment> \<open>the WebAssembly instance reads or writes outside its memory\<close>
  | HashFailure         \<comment> \<open>the hash primitive itself throws\<close>
  | AllocationFailure
  | InvalidAddress      \<comment> \<open>release of an address that is not allocated\<close>
  | InvalidElementSize  \<comment> \<open>\<open>Cannot merge vector rows: ...\<close>\<close>
  | MisalignedBuffer    \<comment> \<open>\<open>Values buffer cannot contain partial number of elements\<close>\<close>

record engine =
  memory :: "byte list"
  blocks :: "nat list"
  hashCount :: nat
  iRef :: nat
  iCap :: nat
  oRef :: nat

text \<open>A call returns a value or throws, and leaves a state behind in both cases.\<close>

type_synonym 'a result = "(error + 'a) \<times> engine"

definition andThen :: "'a result \<Rightarrow> ('a \<Rightarrow> engine \<Rightarrow> 'b result) \<Rightarrow> 'b result" where
  "andThen r f = (case r of (Inl e, s) \<Rightarrow> (Inl e, s) | (Inr x, s) \<Rightarrow> f x s)"

definition DIGEST_SIZE :: nat where
  "DIGEST_SIZE = 32"

definition NULL_BUFFER :: "byte list" where
  "NULL_BUFFER = replicate DIGEST_SIZE 0"

text \<open>
  A \<open>Buffer\<close> either lives in the engine's memory (\<open>buffer === wasm.memory.buffer\<close>,
  with its \<open>byteOffset\<close> and \<open>byteLength\<close>) or somewhere else, with bytes of its own.
\<close>

datatype buffer = Host "byte list" | Resident nat nat

text \<open>
  Modelled from the spec: the VectorView of section 3 (the \<open>Vector\<close> interface and
  \<open>WasmVector\<close> are not among the sources): an element count, an element size and
  the buffer that \<open>toBuffer()\<close> returns.
\<close>

record vector =
  v_length :: nat
  v_elementSize :: nat
  toBuffer :: buffer

section \<open>Memory views\<close>

definition bytes_at :: "byte list \<Rightarrow> nat \<Rightarrow> nat \<Rightarrow> byte list" where
  "bytes_at m a n = take n (drop a m)"

text \<open>\<open>subarray(begin, end)\<close> and \<open>slice(begin, end)\<close> clamp both ends to the view.\<close>

definition subarray :: "byte list \<Rightarrow> nat \<Rightarrow> nat \<Rightarrow> byte list" where
  "subarray m b e = bytes_at m b (e - b)"

definition mem_put :: "byte list \<Rightarrow> nat \<Rightarrow> byte list \<Rightarrow> byte list" where
  "mem_put m a bs = take a m @ bs @ drop (a + length bs) m"

text \<open>\<open>new Uint8Array(memory.buffer).set(src, off)\<close>: a RangeError when it does not fit.\<close>

definition mem_set :: "byte list \<Rightarrow> nat \<Rightarrow> engine \<Rightarrow> unit result" where
  "mem_set src off s =
     (if length (memory s) < off + length src then (Inl RangeError, s)
      else (Inr (), s\<lparr>memory := mem_put (memory s) off src\<rparr>))"

definition byteLength :: "buffer \<Rightarrow> nat" where
  "byteLength b = (case b of Host bs \<Rightarrow> length bs | Resident a n \<Rightarrow> n)"

definition buffer_bytes :: "engine \<Rightarrow> buffer \<Rightarrow> byte list" where
  "buffer_bytes s b = (case b of Host bs \<Rightarrow> bs | Resident a n \<Rightarrow> bytes_at (memory s) a n)"

section \<open>The WebAssembly exports\<close>

text \<open>
  The hash primitive is opaque: a parameter that maps the input bytes to the 32 bytes of
  the digest (byte \<open>j\<close> of the digest is \<open>d j\<close>), or fails.
\<close>

type_synonym prim = "byte list \<Rightarrow> (nat \<Rightarrow> byte) option"

definition digest_bytes :: "(nat \<Rightarrow> byte) \<Rightarrow> byte list" where
  "digest_bytes d = map d [0..<DIGEST_SIZE]"

text \<open>
  Modelled from the spec: \<open>hash\<close> of section 4.1, the export \<open>wasm.hash(vRef, vLength, resRef)\<close>:
  it reads \<open>vLength\<close> bytes at \<open>vRef\<close> and writes the digest at \<open>resRef\<close>. An access
  outside the memory traps.
\<close>

definition hash :: "prim \<Rightarrow> nat \<Rightarrow> nat \<Rightarrow> nat \<Rightarrow> engine \<Rightarrow> unit result" where
  "hash H vRef vLength resRef s =
     (if length (memory s) < vRef + vLength \<or> length (memory s) < resRef + DIGEST_SIZE
      then (Inl Trap, s)
      else (case H (bytes_at (memory s) vRef vLength) of
              None \<Rightarrow> (Inl HashFailure, s\<lparr>hashCount := Suc (hashCount s)\<rparr>)
            | Some d \<Rightarrow>
                (Inr (), s\<lparr>memory := mem_put (memory s) resRef (digest_bytes d),
                           hashCount := Suc (hashCount s)\<rparr>)))"

text \<open>
  Modelled from the spec: \<open>allocate\<close> and \<open>release\<close> of section 4.2, the exports
  \<open>newArray\<close> and \<open>__release\<close>. A block is fresh: it is placed after everything the
  memory holds, and the memory grows by it, zero-filled. The arena is not bounded; only
  a negative size fails. A release of an address that is not outstanding is fatal.
\<close>

definition newArray :: "int \<Rightarrow> engine \<Rightarrow> nat result" where
  "newArray sz s =
     (if sz < 0 then (Inl AllocationFailure, s)
      else (Inr (length (memory s)),
            s\<lparr>memory := memory s @ replicate (nat sz) 0,
              blocks := length (memory s) # blocks s\<rparr>))"

definition release :: "nat \<Rightarrow> engine \<Rightarrow> unit result" where
  "release ref s =
     (if ref \<in> set (blocks s)
      then (Inr (), s\<lparr>blocks := remove1 ref (blocks s)\<rparr>)
      else (Inl InvalidAddress, s))"

section \<open>digest and merge\<close>

text \<open>\<open>Buffer.from(memU8.subarray(this.oRef, this.oEnd))\<close>, with \<open>oEnd = oRef + DIGEST_SIZE\<close>.\<close>

definition readOutput :: "engine \<Rightarrow> byte list result" where
  "readOutput s = (Inr (subarray (memory s) (oRef s) (oRef s + DIGEST_SIZE)), s)"

definition digest :: "prim \<Rightarrow> byte list \<Rightarrow> engine \<Rightarrow> byte list result" where
  "digest H v s =
     (if length v < 4096 then
        andThen (mem_set v (iRef s) s) (\<lambda>_ s1.
        andThen (hash H (iRef s1) (length v) (oRef s1) s1) (\<lambda>_. readOutput))
      else
        andThen (newArray (int (length v)) s) (\<lambda>vRef s1.
        andThen (mem_set v vRef s1) (\<lambda>_ s2.
        andThen (hash H vRef (length v) (oRef s2) s2) (\<lambda>_ s3.
        andThen (release vRef s3) (\<lambda>_. readOutput)))))"

definition merge :: "prim \<Rightarrow> byte list \<Rightarrow> byte list \<Rightarrow> engine \<Rightarrow> byte list result" where
  "merge H a b s =
     andThen (mem_set a (iRef s) s) (\<lambda>_ s1.
     andThen (mem_set b (iRef s1 + length a) s1) (\<lambda>_ s2.
     andThen (hash H (iRef s2) (length a + length b) (oRef s2) s2) (\<lambda>_. readOutput)))"

section \<open>The 32-bit operators of JavaScript\<close>

text \<open>
  \<open><<\<close>, \<open>>>>\<close> and \<open>&\<close> convert their operands to 32 bits, and take the shift
  count modulo 32; \<open><<\<close> and \<open>&\<close> give a signed result, \<open>>>>\<close> an unsigned one.
  Numbers that the code hands to the exports without such an operator are taken as they
  are.
\<close>

definition js_shl :: "int \<Rightarrow> nat \<Rightarrow> int" where
  "js_shl x n = sint (push_bit (n mod 32) (word_of_int x :: 32 word))"

definition js_ushr :: "int \<Rightarrow> nat \<Rightarrow> nat" where
  "js_ushr x n = unat (drop_bit (n mod 32) (word_of_int x :: 32 word))"

definition js_and :: "int \<Rightarrow> int \<Rightarrow> int" where
  "js_and x y = sint ((word_of_int x :: 32 word) AND word_of_int y)"

section \<open>The batch exports\<close>

text \<open>
  Modelled from the spec: \<open>hashStrided\<close> of section 4.1, the export
  \<open>wasm.hashValues1(vRef, resRef, valueSize, valueCount)\<close>: \<open>valueCount\<close> digests, digest
  \<open>i\<close> over the \<open>valueSize\<close> bytes at \<open>vRef + i * valueSize\<close>, written one after the
  other from \<open>resRef\<close> on. It returns the address after the last digest, which
  \<open>buildMerkleNodes\<close> takes as the next slot of the row.
\<close>

fun hashValues1 :: "prim \<Rightarrow> nat \<Rightarrow> nat \<Rightarrow> int \<Rightarrow> nat \<Rightarrow> engine \<Rightarrow> nat result" where
  "hashValues1 H vRef resRef valueSize 0 s = (Inr resRef, s)"
| "hashValues1 H vRef resRef valueSize (Suc n) s =
     (if valueSize < 0 then (Inl Trap, s)
      else andThen (hash H vRef (nat valueSize) resRef s)
             (\<lambda>_. hashValues1 H (vRef + nat valueSize) (resRef + DIGEST_SIZE) valueSize n))"

text \<open>
  Modelled from the spec: \<open>hashAdjacentPairs\<close> of section 4.1 as step 6 of section 4.5
  uses it, the export \<open>wasm.hashValues2(vRef, resRef, valueSize, valueCount)\<close>:
  \<open>valueCount\<close> digests, each over \<open>valueSize\<close> bytes (two adjacent nodes), written one
  beside the other. \<open>buildMerkleNodes\<close> hands it the address of the last pair of the
  buffer and of the slot before the lowest row, and the rows are written towards the
  front: digest \<open>i\<close> is over the bytes at \<open>vRef - i * valueSize\<close> and goes to
  \<open>resRef - i * 32\<close>.
\<close>

fun hashValues2 :: "prim \<Rightarrow> int \<Rightarrow> int \<Rightarrow> nat \<Rightarrow> nat \<Rightarrow> engine \<Rightarrow> unit result" where
  "hashValues2 H vRef resRef valueSize 0 s = (Inr (), s)"
| "hashValues2 H vRef resRef valueSize (Suc n) s =
     (if vRef < 0 \<or> resRef < 0 then (Inl Trap, s)
      else andThen (hash H (nat vRef) valueSize (nat resRef) s)
             (\<lambda>_. hashValues2 H (vRef - int valueSize) (resRef - int DIGEST_SIZE) valueSize n))"

section \<open>buildMerkleNodes\<close>

text \<open>
  Lines 87 to 94, and again lines 190 to 202 of \<open>digestValues\<close>: a buffer that is not
  in the engine's memory is copied into a block of its own. The result is the address
  (\<open>lRef\<close>, \<open>vRef\<close>) and whether the block is to be released (\<open>releaseLeaves\<close>,
  \<open>releaseValues\<close>).
\<close>

definition intoMemory :: "buffer \<Rightarrow> engine \<Rightarrow> (nat \<times> bool) result" where
  "intoMemory lBuffer s =
     (case lBuffer of
        Resident byteOffset n \<Rightarrow> (Inr (byteOffset, False), s)
      | Host bs \<Rightarrow>
          andThen (newArray (int (length bs)) s) (\<lambda>lRef s1.
          andThen (mem_set bs lRef s1) (\<lambda>_ s2. (Inr (lRef, True), s2))))"

text \<open>\<open>buf.slice(start)\<close>: a negative start counts from the end.\<close>

definition slice_from :: "byte list \<Rightarrow> int \<Rightarrow> byte list" where
  "slice_from bs start =
     (if start < 0 then drop (nat (int (length bs) + start)) bs else drop (nat start) bs)"

text \<open>Lines 103 to 110: the last leaf of an odd number of leaves, with \<open>NULL_BUFFER\<close>.\<close>

definition lastLeafNode :: "prim \<Rightarrow> vector \<Rightarrow> nat \<Rightarrow> engine \<Rightarrow> nat result" where
  "lastLeafNode H leaves resRef s =
     (let lBuffer = toBuffer leaves;
          lastLeaf = slice_from (buffer_bytes s lBuffer)
                       (int (byteLength lBuffer) - int (v_elementSize leaves))
      in andThen (mem_set lastLeaf (iRef s) s) (\<lambda>_ s1.
         andThen (mem_set NULL_BUFFER (iRef s1 + length lastLeaf) s1) (\<lambda>_ s2.
         andThen (hash H (iRef s2) (length lastLeaf + DIGEST_SIZE) resRef s2) (\<lambda>_ s3.
         (Inr (resRef + DIGEST_SIZE), s3)))))"

text \<open>Lines 117 to 120: the loop that fills the rest of the row.\<close>

function fillNull :: "byte list \<Rightarrow> nat \<Rightarrow> nat \<Rightarrow> engine \<Rightarrow> nat result" where
  "fillNull nullParent resRef resEnd s =
     (if resRef < resEnd then
        (case mem_set nullParent resRef s of
           (Inl e, s1) \<Rightarrow> (Inl e, s1)
         | (Inr _, s1) \<Rightarrow> fillNull nullParent (resRef + DIGEST_SIZE) resEnd s1)
      else (Inr resRef, s))"
  by pat_completeness auto
termination
  by (relation "measure (\<lambda>(nullParent, resRef, resEnd, s). resEnd - resRef)")
     (auto simp: DIGEST_SIZE_def)

text \<open>Lines 113 to 121.\<close>

definition nullLeaves :: "prim \<Rightarrow> nat \<Rightarrow> int \<Rightarrow> nat \<Rightarrow> engine \<Rightarrow> nat result" where
  "nullLeaves H nRef bufferLength resRef s =
     andThen (merge H NULL_BUFFER NULL_BUFFER s) (\<lambda>nullParent s1.
       fillNull nullParent resRef (nat (int nRef + bufferLength)) s1)"

definition buildMerkleNodes :: "prim \<Rightarrow> nat \<Rightarrow> vector \<Rightarrow> engine \<Rightarrow> byte list result" where
  "buildMerkleNodes H depth leaves s =
     (let nodeCount = js_shl 1 depth;
          bufferLength = nodeCount * int DIGEST_SIZE
      in andThen (newArray bufferLength s) (\<lambda>nRef s1.
     (let parentCount = js_ushr nodeCount 1;
          evenLeafCount = (if js_and (int (v_length leaves)) 1 \<noteq> 0
                           then v_length leaves - 1 else v_length leaves);
          resRef = nRef + parentCount * DIGEST_SIZE
      in andThen (intoMemory (toBuffer leaves) s1) (\<lambda>(lRef, releaseLeaves) s2.
         andThen (hashValues1 H lRef resRef (js_shl (int (v_elementSize leaves)) 1)
                    (js_ushr (int evenLeafCount) 1) s2) (\<lambda>resRef s3.
         andThen (if releaseLeaves then release lRef s3 else (Inr (), s3)) (\<lambda>_ s4.
         andThen (if evenLeafCount \<noteq> v_length leaves then lastLeafNode H leaves resRef s4
                  else (Inr resRef, s4)) (\<lambda>resRef s5.
         andThen (if int (v_length leaves) < nodeCount
                  then nullLeaves H nRef bufferLength resRef s5
                  else (Inr resRef, s5)) (\<lambda>resRef s6.
     (let tIndex = (int parentCount - 1) * int DIGEST_SIZE;
          sIndex = js_shl tIndex 1
      in andThen (hashValues2 H (int nRef + sIndex) (int nRef + tIndex)
                    (nat (js_shl (int DIGEST_SIZE) 1)) parentCount s6) (\<lambda>_ s7.
     (let nBuffer = subarray (memory s7) nRef (nat (int nRef + bufferLength))
      in andThen (release nRef s7) (\<lambda>_ s8. (Inr nBuffer, s8)))))))))))))"

section \<open>digestValues\<close>

text \<open>
  \<open>Number.isInteger(values.byteLength / valueSize)\<close>: the quotient of two integers below
  \<open>2^53\<close> is an integer exactly when the division leaves no remainder; a division by
  zero gives \<open>Infinity\<close> or \<open>NaN\<close>, which are not integers.
\<close>

definition digestValues :: "prim \<Rightarrow> buffer \<Rightarrow> nat \<Rightarrow> engine \<Rightarrow> vector result" where
  "digestValues H values valueSize s =
     (if valueSize = 0 \<or> byteLength values mod valueSize \<noteq> 0 then (Inl MisalignedBuffer, s)
      else
        (let elementCount = byteLength values div valueSize
         in andThen (intoMemory values s) (\<lambda>(vRef, releaseValues) s1.
            andThen (newArray (int (elementCount * DIGEST_SIZE)) s1) (\<lambda>resRef s2.
            andThen (hashValues1 H vRef resRef (int valueSize) elementCount s2) (\<lambda>_ s3.
            andThen (if releaseValues then release vRef s3 else (Inr (), s3)) (\<lambda>_ s4.
            (Inr \<lparr>v_length = elementCount, v_elementSize = DIGEST_SIZE,
                  toBuffer = Resident resRef (elementCount * DIGEST_SIZE)\<rparr>, s4)))))))"

section \<open>mergeVectorRows\<close>

text \<open>A 64-bit reference in memory, little-endian (\<open>BigUint64Array\<close>).\<close>

definition le64 :: "nat \<Rightarrow> byte list" where
  "le64 v = map (\<lambda>k. of_nat (v div 256 ^ k)) [0..<8]"

definition un_le64 :: "byte list \<Rightarrow> nat" where
  "un_le64 bs = foldr (\<lambda>b acc. unat b + 256 * acc) bs 0"

text \<open>
  \<open>memU64[idx] = v\<close> on \<open>new BigUint64Array(memory.buffer)\<close>: eight bytes at
  \<open>8 * idx\<close>; an index beyond the end of the array does nothing. (The memory of a
  WebAssembly instance is a whole number of pages, so the view over it exists.)
\<close>

definition setU64 :: "nat \<Rightarrow> nat \<Rightarrow> engine \<Rightarrow> unit result" where
  "setU64 idx v s =
     (if length (memory s) < 8 * idx + 8 then (Inr (), s)
      else (Inr (), s\<lparr>memory := mem_put (memory s) (8 * idx) (le64 v)\<rparr>))"

text \<open>
  Lines 152 to 169: the reference of each vector is stored at \<open>vIdx + i\<close>; a vector that
  is not in the engine's memory is copied first. The result is \<open>refsToRelease\<close>, a set
  kept in the order of insertion.
\<close>

fun vectorRefs :: "vector list \<Rightarrow> nat \<Rightarrow> nat \<Rightarrow> nat list \<Rightarrow> engine \<Rightarrow> nat list result" where
  "vectorRefs [] vIdx i refsToRelease s = (Inr refsToRelease, s)"
| "vectorRefs (v # vs) vIdx i refsToRelease s =
     (case toBuffer v of
        Resident byteOffset n \<Rightarrow>
          andThen (setU64 (vIdx + i) byteOffset s) (\<lambda>_.
            vectorRefs vs vIdx (Suc i) refsToRelease)
      | Host bs \<Rightarrow>
          andThen (newArray (int (length bs)) s) (\<lambda>vRef s1.
          andThen (mem_set bs vRef s1) (\<lambda>_ s2.
          andThen (setU64 (vIdx + i) vRef s2) (\<lambda>_.
            vectorRefs vs vIdx (Suc i) (if vRef \<in> set refsToRelease then refsToRelease
                                        else refsToRelease @ [vRef])))))"

text \<open>
  Modelled from the spec: the batched merge-by-row primitive of section 4.6, the export
  \<open>wasm.mergeArrayElements(vRefs, resRef, vCount, elementCount, elementSize)\<close>: the
  digest of row \<open>i\<close> is over the concatenation, in vector order, of the \<open>elementSize\<close>
  bytes at \<open>ref + i * elementSize\<close> of every vector, and goes to \<open>resRef + i * 32\<close>.
\<close>

fun mergeRows :: "prim \<Rightarrow> nat list \<Rightarrow> nat \<Rightarrow> nat \<Rightarrow> nat \<Rightarrow> nat \<Rightarrow> engine \<Rightarrow> unit result" where
  "mergeRows H refs resRef elementSize i 0 s = (Inr (), s)"
| "mergeRows H refs resRef elementSize i (Suc n) s =
     (if (\<exists>r \<in> set refs. length (memory s) < r + (i + 1) * elementSize)
         \<or> length (memory s) < resRef + DIGEST_SIZE
      then (Inl Trap, s)
      else
        (case H (concat (map (\<lambda>r. bytes_at (memory s) (r + i * elementSize) elementSize) refs)) of
           None \<Rightarrow> (Inl HashFailure, s\<lparr>hashCount := Suc (hashCount s)\<rparr>)
         | Some d \<Rightarrow>
             mergeRows H refs (resRef + DIGEST_SIZE) elementSize (Suc i) n
               (s\<lparr>memory := mem_put (memory s) resRef (digest_bytes d),
                  hashCount := Suc (hashCount s)\<rparr>)))"

definition mergeArrayElements ::
  "prim \<Rightarrow> nat \<Rightarrow> nat \<Rightarrow> nat \<Rightarrow> nat \<Rightarrow> nat \<Rightarrow> engine \<Rightarrow> unit result" where
  "mergeArrayElements H vRefs resRef vCount elementCount elementSize s =
     (if length (memory s) < vRefs + 8 * vCount then (Inl Trap, s)
      else mergeRows H (map (\<lambda>k. un_le64 (bytes_at (memory s) (vRefs + 8 * k) 8)) [0..<vCount])
             resRef elementSize 0 elementCount s)"

fun releaseAll :: "nat list \<Rightarrow> engine \<Rightarrow> unit result" where
  "releaseAll [] s = (Inr (), s)"
| "releaseAll (vRef # refs) s = andThen (release vRef s) (\<lambda>_. releaseAll refs)"

text \<open>
  \<open>64 % elementSize !== 0\<close> holds for an element size of zero as well (\<open>NaN\<close>).
  \<open>vectors[0]\<close> of an empty list is \<open>undefined\<close>.
\<close>

definition mergeVectorRows :: "prim \<Rightarrow> vector list \<Rightarrow> engine \<Rightarrow> vector result" where
  "mergeVectorRows H vectors s =
     (case vectors of
        [] \<Rightarrow> (Inl TypeError, s)
      | v0 # _ \<Rightarrow>
         (let elementCount = v_length v0;
              elementSize = v_elementSize v0
          in if 64 < elementSize then (Inl InvalidElementSize, s)
             else if elementSize = 0 \<or> 64 mod elementSize \<noteq> 0 then (Inl InvalidElementSize, s)
             else
               andThen (newArray (int (length vectors * 8)) s) (\<lambda>vRefs s1.
               andThen (vectorRefs vectors (js_ushr (int vRefs) 3) 0 [] s1) (\<lambda>refsToRelease s2.
               andThen (newArray (int (elementCount * DIGEST_SIZE)) s2) (\<lambda>resRef s3.
               andThen (mergeArrayElements H vRefs resRef (length vectors) elementCount
                          elementSize s3) (\<lambda>_ s4.
               andThen (release vRefs s4) (\<lambda>_ s5.
               andThen (releaseAll refsToRelease s5) (\<lambda>_ s6.
               (Inr \<lparr>v_length = elementCount, v_elementSize = DIGEST_SIZE,
                     toBuffer = Resident resRef (elementCount * DIGEST_SIZE)\<rparr>, s6)))))))))"

section \<open>Well-formed states\<close>

text \<open>The scratch input region and the output region lie inside the memory.\<close>

definition wf_engine :: "engine \<Rightarrow> bool" where
  "wf_engine s \<longleftrightarrow>
     iRef s + iCap s \<le> length (memory s) \<and> oRef s + DIGEST_SIZE \<le> length (memory s)"

definition prim_total :: "prim \<Rightarrow> bool" where
  "prim_total H \<longleftrightarrow> (\<forall>x. H x \<noteq> None)"

text \<open>The digest a total primitive gives.\<close>

definition hash_of :: "prim \<Rightarrow> byte list \<Rightarrow> byte list" where
  "hash_of H x = (case H x of None \<Rightarrow> [] | Some d \<Rightarrow> digest_bytes d)"

section \<open>Notions of the specification\<close>

text \<open>A buffer that lives in the engine's memory lies inside it.\<close>

definition wf_buffer :: "engine \<Rightarrow> buffer \<Rightarrow> bool" where
  "wf_buffer s b \<longleftrightarrow> (case b of Host bs \<Rightarrow> True | Resident a n \<Rightarrow> a + n \<le> length (memory s))"

text \<open>
  Modelled from the spec: element \<open>i\<close> of a VectorView (section 3), the
  \<open>elementSize\<close> bytes at \<open>i * elementSize\<close> of its buffer.
\<close>

definition element :: "engine \<Rightarrow> vector \<Rightarrow> nat \<Rightarrow> byte list" where
  "element s v i = bytes_at (buffer_bytes s (toBuffer v)) (i * v_elementSize v) (v_elementSize v)"

text \<open>
  The digests of \<open>n\<close> records of \<open>vs\<close> bytes each that start at \<open>v\<close>, one after the
  other: what \<open>hashValues1\<close> writes.
\<close>

fun digests :: "prim \<Rightarrow> byte list \<Rightarrow> nat \<Rightarrow> nat \<Rightarrow> nat \<Rightarrow> byte list" where
  "digests H m v vs 0 = []"
| "digests H m v vs (Suc n) = hash_of H (bytes_at m v vs) @ digests H m (v + vs) vs n"

text \<open>
  The lowest row of the tree over the leaf bytes \<open>Lb\<close> (\<open>n\<close> leaves of \<open>es\<close> bytes,
  capacity \<open>N\<close>): the digests of the pairs, the digest of the last leaf of an odd
  number with 32 zero bytes, and the digest of two absent leaves for the rest.
\<close>

definition lowestRow :: "prim \<Rightarrow> byte list \<Rightarrow> nat \<Rightarrow> nat \<Rightarrow> nat \<Rightarrow> byte list" where
  "lowestRow H Lb n es N =
     digests H Lb 0 (2 * es) (n div 2) @
     (if odd n then hash_of H (drop ((n - 1) * es) Lb @ NULL_BUFFER) else []) @
     (if n < N then concat (replicate (N - N div 2 - (n + 1) div 2)
                              (hash_of H (NULL_BUFFER @ NULL_BUFFER))) else [])"

text \<open>Node \<open>j\<close> of the buffer that a call returned: the 32 bytes at \<open>j * 32\<close>.\<close>

definition node :: "byte list result \<Rightarrow> nat \<Rightarrow> byte list" where
  "node r j = (case fst r of Inl e \<Rightarrow> [] | Inr buf \<Rightarrow> bytes_at buf (j * DIGEST_SIZE) DIGEST_SIZE)"

text \<open>
  Slot \<open>j\<close> of a buffer of digests: the 32 bytes at \<open>j * 32\<close>, what \<open>node\<close> reads of a
  returned buffer.
\<close>

definition slot :: "byte list \<Rightarrow> nat \<Rightarrow> byte list" where
  "slot buf j = bytes_at buf (j * DIGEST_SIZE) DIGEST_SIZE"

text \<open>The value that \<open>merge\<close> returns in state \<open>s\<close>, and no bytes when it throws.\<close>

definition merged :: "prim \<Rightarrow> engine \<Rightarrow> byte list \<Rightarrow> byte list \<Rightarrow> byte list" where
  "merged H s a b = (case fst (merge H a b s) of Inl e \<Rightarrow> [] | Inr d \<Rightarrow> d)"

text \<open>
  The tree recursion in the words of the specification: the row above a row of nodes
  holds \<open>merge(leftChild, rightChild)\<close> of each two adjacent nodes. Applied
  \<open>depth - 1\<close> times to the lowest row of \<open>2^depth / 2\<close> nodes it leaves one node, the
  root of the tree. The code does not run this function: it is what the layout written
  by \<open>hashValues2\<close> is compared with.
\<close>

fun rowAbove :: "prim \<Rightarrow> engine \<Rightarrow> byte list list \<Rightarrow> byte list list" where
  "rowAbove H s (a # b # row) = merged H s a b # rowAbove H s row"
| "rowAbove H s row = []"

text \<open>Two memories that differ inside \<open>[lo, hi)\<close> only.\<close>

definition same_outside :: "nat \<Rightarrow> nat \<Rightarrow> byte list \<Rightarrow> byte list \<Rightarrow> bool" where
  "same_outside lo hi m m' \<longleftrightarrow>
     length m' = length m \<and> (\<forall>k. k < length m \<and> (k < lo \<or> hi \<le> k) \<longrightarrow> m' ! k = m ! k)"

section \<open>The errors of the memory and of the exports\<close>

text \<open>
  The errors that the operations on the memory and the exports can throw, as opposed to
  the two errors of validation, and the results that throw nothing else.
\<close>

definition runtime_errors :: "error set" where
  "runtime_errors = {RangeError, Trap, HashFailure, AllocationFailure, InvalidAddress}"

definition throws_only :: "error set \<Rightarrow> 'a result \<Rightarrow> bool" where
  "throws_only E r \<longleftrightarrow> (case fst r of Inl e \<Rightarrow> e \<in> E | Inr x \<Rightarrow> True)"

section \<open>Example inputs\<close>

text \<open>
  A small engine: 64 bytes of scratch input at address 0, the output region at 64, and
  nothing allocated. The example primitive gives a digest whose bytes all are the sum of
  the input bytes plus one; \<open>noPrim\<close> is a primitive that throws.
\<close>

definition engine0 :: engine where
  "engine0 = \<lparr>memory = replicate 128 0, blocks = [], hashCount = 0,
              iRef = 0, iCap = 64, oRef = 64\<rparr>"

definition prim0 :: prim where
  "prim0 x = Some (\<lambda>j. sum_list x + 1)"

definition noPrim :: prim where
  "noPrim x = None"

definition leaf :: "nat \<Rightarrow> byte list" where
  "leaf k = replicate 32 (of_nat k)"

definition wideVector :: vector where
  "wideVector = \<lparr>v_length = 1, v_elementSize = 65, toBuffer = Host (replicate 65 0)\<rparr>"

definition hostLeaves :: "nat \<Rightarrow> vector" where
  "hostLeaves n = \<lparr>v_length = n, v_elementSize = 32,
                   toBuffer = Host (concat (map (\<lambda>k. leaf (Suc k)) [0..<n]))\<rparr>"

section \<open>Memory lemmas\<close>

lemma length_digest_bytes [simp]: "length (digest_bytes d) = 32"
  by (simp add: digest_bytes_def DIGEST_SIZE_def)

lemma length_mem_put [simp]:
  "a + length bs \<le> length m \<Longrightarrow> length (mem_put m a bs) = length m"
  by (simp add: mem_put_def)

lemma length_bytes_at [simp]:
  "a + n \<le> length m \<Longrightarrow> length (bytes_at m a n) = n"
  by (simp add: bytes_at_def)

lemma bytes_at_mem_put_same [simp]:
  "a + length bs \<le> length m \<Longrightarrow> bytes_at (mem_put m a bs) a (length bs) = bs"
  by (simp add: bytes_at_def mem_put_def)

lemma nth_mem_put:
  assumes "a + length bs \<le> length m" "k < length m"
  shows "mem_put m a bs ! k = (if a \<le> k \<and> k < a + length bs then bs ! (k - a) else m ! k)"
proof -
  consider "k < a" | "a \<le> k" "k < a + length bs" | "a + length bs \<le> k" by linarith
  then show ?thesis
  proof cases
    case 1
    with assms show ?thesis by (simp add: mem_put_def nth_append)
  next
    case 2
    then have "k - a < length bs" by linarith
    with 2 assms show ?thesis by (simp add: mem_put_def nth_append)
  next
    case 3
    then have "\<not> k - a < length bs" "\<not> k < a" by linarith+
    with assms have "mem_put m a bs ! k = drop (a + length bs) m ! (k - a - length bs)"
      by (simp add: mem_put_def nth_append)
    also from 3 assms have "\<dots> = m ! k" by simp
    finally show ?thesis using 3 by simp
  qed
qed

lemma nth_bytes_at:
  "a + n \<le> length m \<Longrightarrow> k < n \<Longrightarrow> bytes_at m a n ! k = m ! (a + k)"
  by (simp add: bytes_at_def)

lemma bytes_at_mem_put_other:
  assumes "a + length bs \<le> length m" "b + n \<le> length m" "b + n \<le> a \<or> a + length bs \<le> b"
  shows "bytes_at (mem_put m a bs) b n = bytes_at m b n"
proof (rule nth_equalityI)
  show "length (bytes_at (mem_put m a bs) b n) = length (bytes_at m b n)"
    using assms by simp
next
  fix k assume "k < length (bytes_at (mem_put m a bs) b n)"
  with assms have k: "k < n" by simp
  with assms show "bytes_at (mem_put m a bs) b n ! k = bytes_at m b n ! k"
    by (auto simp: nth_bytes_at nth_mem_put)
qed

lemma mem_put_mem_put_adjacent:
  assumes "a + length xs + length ys \<le> length m"
  shows "mem_put (mem_put m a xs) (a + length xs) ys = mem_put m a (xs @ ys)"
  using assms by (simp add: mem_put_def ac_simps)

lemma bytes_at_append:
  "bytes_at m a (n + k) = bytes_at m a n @ bytes_at m (a + n) k"
proof -
  have "drop n (drop a m) = drop (a + n) m" by (simp add: add.commute)
  then show ?thesis unfolding bytes_at_def take_add by simp
qed

section \<open>Single operations\<close>

lemma andThen_Inr [simp]: "andThen (Inr x, s) f = f x s"
  by (simp add: andThen_def)

lemma andThen_Inl [simp]: "andThen (Inl e, s) f = (Inl e, s)"
  by (simp add: andThen_def)

lemma mem_set_ok:
  "off + length src \<le> length (memory s) \<Longrightarrow>
   mem_set src off s = (Inr (), s\<lparr>memory := mem_put (memory s) off src\<rparr>)"
  by (simp add: mem_set_def)

lemma hash_ok:
  "vRef + n \<le> length (memory s) \<Longrightarrow> resRef + 32 \<le> length (memory s) \<Longrightarrow>
   hash H vRef n resRef s =
     (case H (bytes_at (memory s) vRef n) of
        None \<Rightarrow> (Inl HashFailure, s\<lparr>hashCount := Suc (hashCount s)\<rparr>)
      | Some d \<Rightarrow> (Inr (), s\<lparr>memory := mem_put (memory s) resRef (digest_bytes d),
                              hashCount := Suc (hashCount s)\<rparr>))"
  by (simp add: hash_def DIGEST_SIZE_def)

lemma hash_of_Some: "H x = Some d \<Longrightarrow> hash_of H x = digest_bytes d"
  by (simp add: hash_of_def)

lemma length_hash_of [simp]:
  assumes "prim_total H"
  shows "length (hash_of H x) = 32"
proof -
  from assms obtain d where "H x = Some d" by (auto simp: prim_total_def)
  then show ?thesis by (simp add: hash_of_def)
qed

lemma hash_total:
  assumes "prim_total H" "vRef + n \<le> length (memory s)" "resRef + 32 \<le> length (memory s)"
  shows "hash H vRef n resRef s =
           (Inr (), s\<lparr>memory := mem_put (memory s) resRef (hash_of H (bytes_at (memory s) vRef n)),
                       hashCount := Suc (hashCount s)\<rparr>)"
proof -
  from assms(1) obtain d where "H (bytes_at (memory s) vRef n) = Some d"
    by (auto simp: prim_total_def)
  with assms show ?thesis by (simp add: hash_ok hash_of_def)
qed

lemma readOutput_after_put:
  "oRef s + 32 \<le> length m \<Longrightarrow> length bs = 32 \<Longrightarrow>
   readOutput (s\<lparr>memory := mem_put m (oRef s) bs, hashCount := c\<rparr>) =
     (Inr bs, s\<lparr>memory := mem_put m (oRef s) bs, hashCount := c\<rparr>)"
  using bytes_at_mem_put_same [of "oRef s" bs m]
  by (simp add: readOutput_def subarray_def DIGEST_SIZE_def)

text \<open>What \<open>merge\<close> does in a well-formed engine to inputs that fit the scratch region.\<close>

lemma merge_run:
  assumes "wf_engine s" "length a + length b \<le> iCap s"
  shows "merge H a b s =
           (case H (a @ b) of
              None \<Rightarrow> (Inl HashFailure,
                        s\<lparr>memory := mem_put (memory s) (iRef s) (a @ b),
                          hashCount := Suc (hashCount s)\<rparr>)
            | Some d \<Rightarrow> (Inr (digest_bytes d),
                        s\<lparr>memory := mem_put (mem_put (memory s) (iRef s) (a @ b)) (oRef s)
                                       (digest_bytes d),
                          hashCount := Suc (hashCount s)\<rparr>))"
proof -
  let ?m = "memory s"
  from assms have fit: "iRef s + length a + length b \<le> length ?m"
    and out: "oRef s + 32 \<le> length ?m"
    by (simp_all add: wf_engine_def DIGEST_SIZE_def)
  let ?m2 = "mem_put ?m (iRef s) (a @ b)"
  have m2: "mem_put (mem_put ?m (iRef s) a) (iRef s + length a) b = ?m2"
    using fit by (simp add: mem_put_mem_put_adjacent)
  have rd: "bytes_at ?m2 (iRef s) (length a + length b) = a @ b"
    using bytes_at_mem_put_same [of "iRef s" "a @ b" ?m] fit by simp
  have len: "length ?m2 = length ?m" using fit by simp
  show ?thesis
    using fit out m2 rd len
    by (simp add: merge_def mem_set_ok hash_ok readOutput_after_put split: option.split)
qed

lemma digest_small_run:
  assumes "wf_engine s" "length v < 4096" "length v \<le> iCap s"
  shows "digest H v s =
           (case H v of
              None \<Rightarrow> (Inl HashFailure,
                        s\<lparr>memory := mem_put (memory s) (iRef s) v,
                          hashCount := Suc (hashCount s)\<rparr>)
            | Some d \<Rightarrow> (Inr (digest_bytes d),
                        s\<lparr>memory := mem_put (mem_put (memory s) (iRef s) v) (oRef s)
                                       (digest_bytes d),
                          hashCount := Suc (hashCount s)\<rparr>))"
proof -
  let ?m = "memory s"
  from assms have fit: "iRef s + length v \<le> length ?m" and out: "oRef s + 32 \<le> length ?m"
    by (simp_all add: wf_engine_def DIGEST_SIZE_def)
  have rd: "bytes_at (mem_put ?m (iRef s) v) (iRef s) (length v) = v"
    using fit by simp
  show ?thesis
    using assms(2) fit out rd
    by (simp add: digest_def mem_set_ok hash_ok readOutput_after_put split: option.split)
qed

text \<open>
  The large branch: the block is released after the hash returned; when the hash
  throws, line 60 is not reached and the block stays.
\<close>

lemma digest_large_run:
  assumes "wf_engine s" "4096 \<le> length v"
  shows "digest H v s =
           (case H v of
              None \<Rightarrow> (Inl HashFailure,
                        s\<lparr>memory := mem_put (memory s @ replicate (length v) 0)
                                       (length (memory s)) v,
                          blocks := length (memory s) # blocks s,
                          hashCount := Suc (hashCount s)\<rparr>)
            | Some d \<Rightarrow> (Inr (digest_bytes d),
                        s\<lparr>memory := mem_put (mem_put (memory s @ replicate (length v) 0)
                                                 (length (memory s)) v) (oRef s)
                                       (digest_bytes d),
                          hashCount := Suc (hashCount s)\<rparr>))"
proof -
  let ?m = "memory s"
  let ?m1 = "?m @ replicate (length v) 0"
  from assms have out: "oRef s + 32 \<le> length ?m1"
    by (simp_all add: wf_engine_def DIGEST_SIZE_def)
  have fit: "length ?m + length v \<le> length ?m1" by simp
  have rd: "bytes_at (mem_put ?m1 (length ?m) v) (length ?m) (length v) = v"
    using fit by simp
  have len: "length (mem_put ?m1 (length ?m) v) = length ?m1" using fit by simp
  show ?thesis
    using assms(2) out rd len
    by (simp add: digest_def newArray_def mem_set_ok hash_ok release_def readOutput_after_put
        split: option.split)
qed

lemma wf_engine0: "wf_engine engine0"
  by (simp add: wf_engine_def engine0_def DIGEST_SIZE_def)

lemma prim_total_prim0: "prim_total prim0"
  by (simp add: prim_total_def prim0_def)

section \<open>Claims about digest and merge\<close>

text \<open>
  C1. For all byte buffers \<open>a\<close> and \<open>b\<close> whose combined length is within the capacity
  of the scratch region, \<open>merge(a, b)\<close> returns the same 32-byte digest as \<open>digest\<close>
  of the concatenation of \<open>a\<close> and \<open>b\<close>: both return the digest that the primitive
  gives for \<open>a @ b\<close>, and both throw when the primitive throws.
\<close>

theorem merge_is_digest_of_concat:
  assumes "wf_engine s" "length a + length b \<le> iCap s"
  shows "fst (merge H a b s) = fst (digest H (a @ b) s) \<and>
         fst (merge H a b s) =
           (case H (a @ b) of None \<Rightarrow> Inl HashFailure | Some d \<Rightarrow> Inr (digest_bytes d))"
proof (cases "length (a @ b) < 4096")
  case True
  with assms have "length (a @ b) \<le> iCap s" by simp
  from digest_small_run [OF assms(1) True this, of H] merge_run [OF assms, of H]
  show ?thesis by (simp split: option.split)
next
  case False
  then have "4096 \<le> length (a @ b)" by simp
  from digest_large_run [OF assms(1) this, of H] merge_run [OF assms, of H]
  show ?thesis by (simp split: option.split)
qed

theorem merge_is_digest_of_concat_witness:
  "wf_engine engine0 \<and> length (leaf 1) + length (leaf 2) \<le> iCap engine0 \<and>
   fst (merge prim0 (leaf 1) (leaf 2) engine0) = fst (digest prim0 (leaf 1 @ leaf 2) engine0) \<and>
   fst (merge prim0 (leaf 1) (leaf 2) engine0) = Inr (replicate 32 97)"
proof -
  have fit: "length (leaf 1) + length (leaf 2) \<le> iCap engine0"
    by (simp add: leaf_def engine0_def)
  have db: "digest_bytes (\<lambda>j. sum_list (leaf 1 @ leaf 2) + 1) = replicate 32 97"
    by (simp add: digest_bytes_def DIGEST_SIZE_def leaf_def sum_list_replicate map_replicate_const)
  note run = merge_is_digest_of_concat [OF wf_engine0 fit, of prim0]
  have same: "fst (merge prim0 (leaf 1) (leaf 2) engine0) =
              fst (digest prim0 (leaf 1 @ leaf 2) engine0)"
    using run by (rule conjunct1)
  have val: "fst (merge prim0 (leaf 1) (leaf 2) engine0) = Inr (replicate 32 97)"
    using run [THEN conjunct2] db by (simp add: prim0_def)
  from wf_engine0 fit same val show ?thesis by (intro conjI)
qed

text \<open>
  C9, as the code has it. For every input value of at least 4096 bytes, in a well-formed
  engine, \<open>digest\<close> allocates a fresh block of the size of the value, copies the value
  in and hashes it. When the hash returns, the block is released and the allocations
  that are outstanding after the call are those from before it. When the hash throws,
  \<open>digest\<close> throws and the block is not released.
\<close>

theorem digest_large_releases_on_return:
  assumes "wf_engine s" "4096 \<le> length v"
  shows "fst (digest H v s) =
           (case H v of None \<Rightarrow> Inl HashFailure | Some d \<Rightarrow> Inr (digest_bytes d)) \<and>
         blocks (snd (digest H v s)) =
           (case H v of None \<Rightarrow> length (memory s) # blocks s | Some d \<Rightarrow> blocks s) \<and>
         bytes_at (memory (snd (digest H v s))) (length (memory s)) (length v) = v"
proof -
  let ?m = "memory s"
  let ?m1 = "mem_put (?m @ replicate (length v) 0) (length ?m) v"
  have len: "length ?m1 = length ?m + length v" by simp
  have rd: "bytes_at ?m1 (length ?m) (length v) = v"
    using bytes_at_mem_put_same [of "length ?m" v "?m @ replicate (length v) 0"] by simp
  from assms have out: "oRef s + 32 \<le> length ?m"
    by (simp add: wf_engine_def DIGEST_SIZE_def)
  have "bytes_at (mem_put ?m1 (oRef s) (digest_bytes d)) (length ?m) (length v) = v" for d
    using bytes_at_mem_put_other [of "oRef s" "digest_bytes d" ?m1 "length ?m" "length v"]
      len rd out by simp
  with rd digest_large_run [OF assms, of H] show ?thesis
    by (simp split: option.split)
qed

theorem digest_large_releases_on_return_witness:
  "wf_engine engine0 \<and> 4096 \<le> length (replicate 4096 (7 :: byte)) \<and>
   fst (digest prim0 (replicate 4096 7) engine0) = Inr (replicate 32 1) \<and>
   blocks (snd (digest prim0 (replicate 4096 7) engine0)) = blocks engine0"
proof -
  have big: "4096 \<le> length (replicate 4096 (7 :: byte))" by simp
  have db: "digest_bytes (\<lambda>j. sum_list (replicate 4096 (7 :: byte)) + 1) = replicate 32 1"
    by (simp add: digest_bytes_def DIGEST_SIZE_def sum_list_replicate map_replicate_const)
  note run = digest_large_releases_on_return [OF wf_engine0 big, of prim0]
  have val: "fst (digest prim0 (replicate 4096 7) engine0) = Inr (replicate 32 1)"
    using run [THEN conjunct1] db by (simp add: prim0_def)
  have blk: "blocks (snd (digest prim0 (replicate 4096 7) engine0)) = blocks engine0"
    using run [THEN conjunct2, THEN conjunct1] by (simp add: prim0_def)
  from wf_engine0 big val blk show ?thesis by (intro conjI)
qed

text \<open>
  C9 as the spec has it fails: with a primitive that throws, \<open>digest\<close> of 4096 bytes
  throws and leaves the block it allocated (at address 128) outstanding.
\<close>

theorem digest_large_leaks_on_failure:
  "wf_engine engine0 \<and> blocks engine0 = [] \<and>
   fst (digest noPrim (replicate 4096 7) engine0) = Inl HashFailure \<and>
   blocks (snd (digest noPrim (replicate 4096 7) engine0)) = [128]"
proof -
  have big: "4096 \<le> length (replicate 4096 (7 :: byte))" by simp
  from digest_large_run [OF wf_engine0 big, of noPrim] wf_engine0
  show ?thesis by (simp add: noPrim_def engine0_def)
qed

section \<open>Validation\<close>

lemma throws_only_Inr [simp]: "throws_only E (Inr x, s)"
  by (simp add: throws_only_def)

lemma throws_only_Inl [simp]: "throws_only E (Inl e, s) \<longleftrightarrow> e \<in> E"
  by (simp add: throws_only_def)

lemma throws_only_andThen:
  assumes "throws_only E r" "\<And>x t. throws_only E (f x t)"
  shows "throws_only E (andThen r f)"
proof (cases r)
  case (Pair v t)
  with assms show ?thesis by (cases v) simp_all
qed

lemma throws_only_neq: "throws_only E r \<Longrightarrow> e \<notin> E \<Longrightarrow> fst r \<noteq> Inl e"
  by (auto simp: throws_only_def)

lemma runtime_newArray: "throws_only runtime_errors (newArray n s)"
  by (simp add: newArray_def runtime_errors_def)

lemma runtime_mem_set: "throws_only runtime_errors (mem_set bs a s)"
  by (simp add: mem_set_def runtime_errors_def)

lemma runtime_release: "throws_only runtime_errors (release a s)"
  by (simp add: release_def runtime_errors_def)

lemma runtime_hash: "throws_only runtime_errors (hash H a n r s)"
  by (simp add: hash_def runtime_errors_def split: option.split)

lemma runtime_setU64: "throws_only runtime_errors (setU64 i v s)"
  by (simp add: setU64_def runtime_errors_def)

lemma runtime_intoMemory: "throws_only runtime_errors (intoMemory b s)"
  by (cases b) (auto simp: intoMemory_def intro!: throws_only_andThen runtime_newArray runtime_mem_set)

lemma runtime_hashValues1: "throws_only runtime_errors (hashValues1 H v r vs n s)"
proof (induction n arbitrary: v r s)
  case 0
  show ?case by simp
next
  case (Suc n)
  show ?case
  proof (cases "vs < 0")
    case True
    then show ?thesis by (simp add: runtime_errors_def)
  next
    case False
    then show ?thesis by (simp add: throws_only_andThen runtime_hash Suc.IH)
  qed
qed

lemma runtime_vectorRefs: "throws_only runtime_errors (vectorRefs vs vIdx i rs s)"
proof (induction vs arbitrary: i rs s)
  case Nil
  show ?case by simp
next
  case (Cons v vs)
  show ?case
    by (cases "toBuffer v")
       (auto intro!: throws_only_andThen Cons.IH runtime_newArray runtime_mem_set runtime_setU64)
qed

lemma runtime_mergeRows: "throws_only runtime_errors (mergeRows H refs r es i n s)"
proof (induction n arbitrary: r i s)
  case 0
  show ?case by simp
next
  case (Suc n)
  show ?case using Suc.IH
    by (auto simp: runtime_errors_def split: option.split)
qed

lemma runtime_mergeArrayElements:
  "throws_only runtime_errors (mergeArrayElements H vRefs r c n es s)"
  using runtime_mergeRows by (simp add: mergeArrayElements_def runtime_errors_def)

lemma runtime_releaseAll: "throws_only runtime_errors (releaseAll rs s)"
  by (induction rs arbitrary: s) (auto intro!: throws_only_andThen runtime_release)

lemma digestValues_checked:
  "0 < valueSize \<Longrightarrow>
   (if byteLength values mod valueSize \<noteq> 0
    then digestValues H values valueSize s = (Inl MisalignedBuffer, s)
    else fst (digestValues H values valueSize s) \<noteq> Inl MisalignedBuffer)"
proof (cases "byteLength values mod valueSize = 0")
  case False
  then show ?thesis by (simp add: digestValues_def)
next
  case True
  assume "0 < valueSize"
  have "throws_only runtime_errors (digestValues H values valueSize s)"
    using True \<open>0 < valueSize\<close>
    by (auto simp: digestValues_def Let_def
        intro!: throws_only_andThen runtime_intoMemory runtime_newArray runtime_hashValues1
          runtime_release)
  then have "fst (digestValues H values valueSize s) \<noteq> Inl MisalignedBuffer"
    by (rule throws_only_neq) (simp add: runtime_errors_def)
  with True show ?thesis by simp
qed

lemma mergeVectorRows_checked:
  "(if 64 < v_elementSize v0 \<or> 64 mod v_elementSize v0 \<noteq> 0
    then mergeVectorRows H (v0 # vs) s = (Inl InvalidElementSize, s)
    else fst (mergeVectorRows H (v0 # vs) s) \<noteq> Inl InvalidElementSize)"
proof (cases "64 < v_elementSize v0 \<or> 64 mod v_elementSize v0 \<noteq> 0")
  case True
  then show ?thesis by (auto simp: mergeVectorRows_def Let_def)
next
  case False
  then have ok: "\<not> 64 < v_elementSize v0" "64 mod v_elementSize v0 = 0"
    by simp_all
  have "v_elementSize v0 \<noteq> 0"
  proof
    assume "v_elementSize v0 = 0"
    with ok(2) show False by simp
  qed
  note ok = ok this
  have "throws_only runtime_errors (mergeVectorRows H (v0 # vs) s)"
    using ok
    by (simp add: mergeVectorRows_def Let_def throws_only_andThen runtime_newArray
          runtime_vectorRefs runtime_mergeArrayElements runtime_release runtime_releaseAll
        del: vectorRefs.simps)
  then have "fst (mergeVectorRows H (v0 # vs) s) \<noteq> Inl InvalidElementSize"
    by (rule throws_only_neq) (simp add: runtime_errors_def)
  with False show ?thesis by simp
qed


text \<open>
  C8. For a positive \<open>valueSize\<close>, \<open>digestValues(values, valueSize)\<close> fails with
  MisalignedBuffer if and only if \<open>values.byteLength\<close> is not an exact multiple of
  \<open>valueSize\<close>; the check comes before any hashing or allocation: the failing call
  leaves the engine as it was.
\<close>

theorem digestValues_misaligned_iff:
  assumes "0 < valueSize"
  shows "(fst (digestValues H values valueSize s) = Inl MisalignedBuffer
            \<longleftrightarrow> byteLength values mod valueSize \<noteq> 0) \<and>
         (if byteLength values mod valueSize \<noteq> 0
          then digestValues H values valueSize s = (Inl MisalignedBuffer, s)
          else fst (digestValues H values valueSize s) \<noteq> Inl MisalignedBuffer)"
  using digestValues_checked [OF assms, of "values" H s]
  by (auto split: if_splits)

theorem digestValues_misaligned_iff_witness:
  "(0 :: nat) < 17 \<and> byteLength (Host (leaf 1 @ leaf 2)) mod 17 = 13 \<and>
   digestValues prim0 (Host (leaf 1 @ leaf 2)) 17 engine0 = (Inl MisalignedBuffer, engine0)"
proof -
  have pos: "(0 :: nat) < 17" by simp
  have len: "byteLength (Host (leaf 1 @ leaf 2)) mod 17 = 13"
    by (simp add: byteLength_def leaf_def)
  from digestValues_misaligned_iff [OF pos, of prim0 "Host (leaf 1 @ leaf 2)" engine0] len
  have "digestValues prim0 (Host (leaf 1 @ leaf 2)) 17 engine0 = (Inl MisalignedBuffer, engine0)"
    by simp
  with pos len show ?thesis by (intro conjI)
qed

text \<open>
  C7, as the code has it. \<open>mergeVectorRows(vectors)\<close> reads the element size of
  \<open>vectors[0]\<close> only. If that element size is above 64 or does not divide 64, the call
  fails with InvalidElementSize and leaves the engine as it was: no hashing, no
  allocation. If it passes the check, the call never fails with InvalidElementSize,
  whatever the element sizes of the other vectors are.
\<close>

theorem mergeVectorRows_checks_first_vector:
  "(if 64 < v_elementSize v0 \<or> 64 mod v_elementSize v0 \<noteq> 0
    then mergeVectorRows H (v0 # vs) s = (Inl InvalidElementSize, s)
    else fst (mergeVectorRows H (v0 # vs) s) \<noteq> Inl InvalidElementSize)"
proof (cases "64 < v_elementSize v0 \<or> 64 mod v_elementSize v0 \<noteq> 0")
  case True
  with mergeVectorRows_checked [of v0 H vs s] show ?thesis by simp
next
  case False
  with mergeVectorRows_checked [of v0 H vs s] show ?thesis by simp
qed

theorem mergeVectorRows_checks_first_vector_witness:
  "64 < v_elementSize wideVector \<and>
   mergeVectorRows prim0 [wideVector, hostLeaves 1] engine0 = (Inl InvalidElementSize, engine0)"
proof -
  have wide: "64 < v_elementSize wideVector" by (simp add: wideVector_def)
  with mergeVectorRows_checks_first_vector [of wideVector prim0 "[hostLeaves 1]" engine0]
  have "mergeVectorRows prim0 [wideVector, hostLeaves 1] engine0 = (Inl InvalidElementSize, engine0)"
    by simp
  with wide show ?thesis by (intro conjI)
qed

text \<open>
  C7 as the spec has it fails: the second vector has an element size of 65, and the call
  does not fail with InvalidElementSize.
\<close>

theorem mergeVectorRows_ignores_second_vector:
  "64 < v_elementSize wideVector \<and>
   fst (mergeVectorRows prim0 [hostLeaves 1, wideVector] engine0) \<noteq> Inl InvalidElementSize"
proof -
  have wide: "64 < v_elementSize wideVector" by (simp add: wideVector_def)
  from mergeVectorRows_checked [of "hostLeaves 1" prim0 "[wideVector]" engine0]
  have "fst (mergeVectorRows prim0 [hostLeaves 1, wideVector] engine0) \<noteq> Inl InvalidElementSize"
    by (simp add: hostLeaves_def)
  with wide show ?thesis by (intro conjI)
qed

section \<open>The 32-bit operators\<close>

lemma js_shl_eq:
  assumes "0 \<le> x" "x * 2 ^ n < 2 ^ 31" "n < 32"
  shows "js_shl x n = x * 2 ^ n"
proof -
  have "(1::int) \<le> 2 ^ n" by simp
  with assms(1) have "x * 1 \<le> x * 2 ^ n" by (intro mult_left_mono) 
  with assms have x: "- (2 ^ 31) \<le> x" "x < 2 ^ 31" by simp_all
  have "sint (word_of_int x :: 32 word) = x"
    using x by (simp add: sint_sbintrunc' signed_take_bit_int_eq_self)
  then have "js_shl x n = signed_take_bit 31 (push_bit n x)"
    using assms(3) by (simp add: js_shl_def signed_push_bit_eq)
  also have "\<dots> = push_bit n x"
  proof (rule signed_take_bit_int_eq_self)
    have "0 \<le> x * 2 ^ n" using assms(1) by simp
    then show "- (2 ^ 31) \<le> push_bit n x" by (simp add: push_bit_eq_mult)
    show "push_bit n x < 2 ^ 31" using assms(2) by (simp add: push_bit_eq_mult)
  qed
  finally show ?thesis by (simp add: push_bit_eq_mult)
qed

lemma js_ushr_eq:
  assumes "x < 2 ^ 32" "n < 32"
  shows "js_ushr (int x) n = x div 2 ^ n"
proof -
  have "unat (word_of_int (int x) :: 32 word) = x"
    using assms(1) by (simp add: unat_of_nat)
  then have "js_ushr (int x) n = drop_bit n x"
    using assms(2) unfolding js_ushr_def unat_drop_bit_eq by simp
  then show ?thesis by (simp add: drop_bit_eq_div)
qed

lemma js_and_one: "js_and (int n) 1 \<noteq> 0 \<longleftrightarrow> odd n"
proof -
  have "js_and (int n) 1 = 0 \<longleftrightarrow> (word_of_nat n :: 32 word) AND 1 = 0"
    unfolding js_and_def signed_eq_0_iff by simp
  also have "\<dots> \<longleftrightarrow> even (word_of_nat n :: 32 word)"
    by (simp add: and_one_eq even_iff_mod_2_eq_zero)
  also have "\<dots> \<longleftrightarrow> even n"
    by (simp add: even_word_def unat_of_nat) presburger?
  finally show ?thesis by simp
qed

section \<open>Batch hashing\<close>

lemma length_digests [simp]: "prim_total H \<Longrightarrow> length (digests H m v vs n) = 32 * n"
  by (induction n arbitrary: v) simp_all

lemma bytes_at_append_left: "n \<le> length xs \<Longrightarrow> bytes_at (xs @ ys) 0 n = take n xs"
  by (simp add: bytes_at_def)

lemma bytes_at_append_right: "bytes_at (xs @ ys) (length xs + a) n = bytes_at ys a n"
  by (simp add: bytes_at_def)

lemma bytes_at_append_left': "a + n \<le> length xs \<Longrightarrow> bytes_at (xs @ ys) a n = bytes_at xs a n"
  by (simp add: bytes_at_def)

lemma digests_chunk:
  "prim_total H \<Longrightarrow> i < n \<Longrightarrow>
   bytes_at (digests H m v vs n) (32 * i) 32 = hash_of H (bytes_at m (v + i * vs) vs)"
proof (induction n arbitrary: v i)
  case 0
  then show ?case by simp
next
  case (Suc n)
  show ?case
  proof (cases i)
    case 0
    with Suc.prems show ?thesis by (simp add: bytes_at_append_left)
  next
    case (Suc j)
    with Suc.prems have j: "j < n" by simp
    have "bytes_at (hash_of H (bytes_at m v vs) @ digests H m (v + vs) vs n)
            (length (hash_of H (bytes_at m v vs)) + 32 * j) 32
          = bytes_at (digests H m (v + vs) vs n) (32 * j) 32"
      by (rule bytes_at_append_right)
    with Suc.IH [OF Suc.prems(1) j, of "v + vs"] Suc Suc.prems(1) show ?thesis
      by (simp add: add.assoc add.commute add.left_commute)
  qed
qed

lemma digests_mem_put:
  assumes "a + length bs \<le> length m" "v + n * vs \<le> length m"
    "v + n * vs \<le> a \<or> a + length bs \<le> v"
  shows "digests H (mem_put m a bs) v vs n = digests H m v vs n"
  using assms
proof (induction n arbitrary: v)
  case 0
  show ?case by simp
next
  case (Suc n)
  from Suc.prems have here: "bytes_at (mem_put m a bs) v vs = bytes_at m v vs"
    by (intro bytes_at_mem_put_other) auto
  from Suc.prems have "digests H (mem_put m a bs) (v + vs) vs n = digests H m (v + vs) vs n"
    by (intro Suc.IH) (auto simp: add.assoc)
  with here show ?case by simp
qed

lemma hashValues1_run:
  assumes "prim_total H"
    "v + n * vs \<le> length (memory s)" "r + 32 * n \<le> length (memory s)"
    "v + n * vs \<le> r \<or> r + 32 * n \<le> v"
  shows "hashValues1 H v r (int vs) n s =
           (Inr (r + 32 * n),
            s\<lparr>memory := mem_put (memory s) r (digests H (memory s) v vs n),
              hashCount := hashCount s + n\<rparr>)"
  using assms(2-)
proof (induction n arbitrary: v r s)
  case 0
  show ?case by (simp add: mem_put_def)
next
  case (Suc n)
  let ?m = "memory s"
  let ?d = "hash_of H (bytes_at ?m v vs)"
  let ?s1 = "s\<lparr>memory := mem_put ?m r ?d, hashCount := Suc (hashCount s)\<rparr>"
  from Suc.prems have b: "v + vs \<le> length ?m" "r + 32 \<le> length ?m" by auto
  have h: "hash H v vs r s = (Inr (), ?s1)"
    using hash_total [OF assms(1) b] .
  have len1: "length (memory ?s1) = length ?m" using b assms(1) by simp
  have IH: "hashValues1 H (v + vs) (r + 32) (int vs) n ?s1 =
           (Inr (r + 32 + 32 * n),
            ?s1\<lparr>memory := mem_put (memory ?s1) (r + 32) (digests H (memory ?s1) (v + vs) vs n),
              hashCount := hashCount ?s1 + n\<rparr>)"
    using Suc.prems len1 by (intro Suc.IH) (auto simp: add.assoc)
  have dg: "digests H (mem_put ?m r ?d) (v + vs) vs n = digests H ?m (v + vs) vs n"
    using Suc.prems assms(1) by (intro digests_mem_put) (auto simp: add.assoc)
  have adj: "mem_put (mem_put ?m r ?d) (r + length ?d) (digests H ?m (v + vs) vs n) =
             mem_put ?m r (?d @ digests H ?m (v + vs) vs n)"
    using Suc.prems assms(1) by (intro mem_put_mem_put_adjacent) simp
  show ?case using h IH dg adj assms(1)
    by (simp add: DIGEST_SIZE_def)
qed


lemma mem_put_fresh [simp]: "mem_put (m @ replicate (length bs) 0) (length m) bs = m @ bs"
  by (simp add: mem_put_def)

lemma bytes_at_bytes_at:
  "a' + n' \<le> n \<Longrightarrow> bytes_at (bytes_at m a n) a' n' = bytes_at m (a + a') n'"
  by (simp add: bytes_at_def take_drop add.commute min_def)

lemma bytes_at_all [simp]: "bytes_at m 0 (length m) = m"
  by (simp add: bytes_at_def)

lemma bytes_at_mem_put_inside:
  assumes "r + length D \<le> length m" "x + n \<le> length D"
  shows "bytes_at (mem_put m r D) (r + x) n = bytes_at D x n"
proof -
  have "bytes_at (bytes_at (mem_put m r D) r (length D)) x n = bytes_at (mem_put m r D) (r + x) n"
    using assms(2) by (rule bytes_at_bytes_at)
  with assms(1) show ?thesis by simp
qed

lemma intoMemory_run:
  assumes "wf_buffer s b"
  shows "\<exists>lRef rel ext.
           intoMemory b s =
             (Inr (lRef, rel),
              s\<lparr>memory := memory s @ ext,
                blocks := (if rel then [lRef] else []) @ blocks s\<rparr>) \<and>
           lRef + byteLength b \<le> length (memory s) + length ext \<and>
           lRef = (case b of Host bs \<Rightarrow> length (memory s) | Resident a n \<Rightarrow> a) \<and>
           bytes_at (memory s @ ext) lRef (byteLength b) = buffer_bytes s b"
proof (cases b)
  case (Host bs)
  have "intoMemory b s =
          (Inr (length (memory s), True),
           s\<lparr>memory := memory s @ bs, blocks := [length (memory s)] @ blocks s\<rparr>)"
    using Host by (simp add: intoMemory_def newArray_def mem_set_ok)
  moreover have "bytes_at (memory s @ bs) (length (memory s)) (byteLength b) = buffer_bytes s b"
    using Host bytes_at_append_right [of "memory s" bs 0 "length bs"]
    by (simp add: byteLength_def buffer_bytes_def)
  ultimately show ?thesis using Host
    by (intro exI [of _ "length (memory s)"] exI [of _ True] exI [of _ bs])
       (simp add: byteLength_def)
next
  case (Resident a n)
  have "intoMemory b s = (Inr (a, False), s\<lparr>memory := memory s @ [], blocks := [] @ blocks s\<rparr>)"
    using Resident by (simp add: intoMemory_def)
  then show ?thesis using Resident assms
    by (intro exI [of _ a] exI [of _ False] exI [of _ "[]"])
       (simp add: byteLength_def buffer_bytes_def wf_buffer_def)
qed

lemma digest_total:
  assumes "wf_engine s" "prim_total H" "length v \<le> iCap s \<or> 4096 \<le> length v"
  shows "fst (digest H v s) = Inr (hash_of H v)"
proof -
  from assms(2) obtain d where d: "H v = Some d" by (auto simp: prim_total_def)
  show ?thesis
  proof (cases "length v < 4096")
    case True
    with assms(3) have "length v \<le> iCap s" by auto
    from digest_small_run [OF assms(1) True this, of H] d show ?thesis
      by (simp add: hash_of_def)
  next
    case False
    then have "4096 \<le> length v" by simp
    from digest_large_run [OF assms(1) this, of H] d show ?thesis
      by (simp add: hash_of_def)
  qed
qed

lemma digestValues_run:
  assumes "prim_total H" "wf_buffer s values" "0 < valueSize"
    "byteLength values = k * valueSize"
  shows "\<exists>resRef m' bl.
           digestValues H values valueSize s =
             (Inr \<lparr>v_length = k, v_elementSize = 32, toBuffer = Resident resRef (32 * k)\<rparr>,
              s\<lparr>memory := m', blocks := bl, hashCount := hashCount s + k\<rparr>) \<and>
           resRef + 32 * k \<le> length m' \<and>
           (\<forall>i<k. bytes_at m' (resRef + 32 * i) 32 =
                    hash_of H (bytes_at (buffer_bytes s values) (i * valueSize) valueSize))"
proof -
  let ?m = "memory s"
  from intoMemory_run [OF assms(2)] obtain lRef rel ext where
    run1: "intoMemory values s =
             (Inr (lRef, rel),
              s\<lparr>memory := ?m @ ext, blocks := (if rel then [lRef] else []) @ blocks s\<rparr>)"
    and fit: "lRef + byteLength values \<le> length ?m + length ext"
    and rd: "bytes_at (?m @ ext) lRef (byteLength values) = buffer_bytes s values"
    by blast
  let ?s1 = "s\<lparr>memory := ?m @ ext, blocks := (if rel then [lRef] else []) @ blocks s\<rparr>"
  let ?r = "length ?m + length ext"
  let ?m2 = "(?m @ ext) @ replicate (32 * k) 0"
  let ?s2 = "?s1\<lparr>memory := ?m2, blocks := ?r # blocks ?s1\<rparr>"
  have run2: "newArray (int (k * DIGEST_SIZE)) ?s1 = (Inr ?r, ?s2)"
    by (simp add: newArray_def DIGEST_SIZE_def mult.commute)
  let ?D = "digests H ?m2 lRef valueSize k"
  let ?m3 = "mem_put ?m2 ?r ?D"
  let ?s3 = "?s2\<lparr>memory := ?m3, hashCount := hashCount ?s2 + k\<rparr>"
  have run3: "hashValues1 H lRef ?r (int valueSize) k ?s2 = (Inr (?r + 32 * k), ?s3)"
    using hashValues1_run [OF assms(1), of lRef k valueSize ?s2 ?r] fit assms(4) by simp
  let ?bl = "if rel then remove1 lRef (blocks ?s3) else blocks ?s3"
  let ?s4 = "?s3\<lparr>blocks := ?bl\<rparr>"
  have run4: "(if rel then release lRef ?s3 else (Inr (), ?s3)) = (Inr (), ?s4)"
    by (simp add: release_def)
  have div: "byteLength values div valueSize = k"
    and cond: "(valueSize = 0 \<or> byteLength values mod valueSize \<noteq> 0) = False"
    using assms(3,4) by simp_all
  have "digestValues H values valueSize s =
          (Inr \<lparr>v_length = k, v_elementSize = DIGEST_SIZE,
                toBuffer = Resident ?r (k * DIGEST_SIZE)\<rparr>, ?s4)"
    by (simp only: digestValues_def Let_def div cond if_False run1 run2 run3 run4
          andThen_Inr prod.case)
  then have run: "digestValues H values valueSize s =
               (Inr \<lparr>v_length = k, v_elementSize = 32, toBuffer = Resident ?r (32 * k)\<rparr>, ?s4)"
    by (simp add: DIGEST_SIZE_def mult.commute)
  have chunk: "bytes_at ?m3 (?r + 32 * i) 32 =
                 hash_of H (bytes_at (buffer_bytes s values) (i * valueSize) valueSize)"
    if "i < k" for i
  proof -
    from that have le: "32 * i + 32 \<le> 32 * k" by simp
    have "bytes_at ?m3 (?r + 32 * i) 32 = bytes_at ?D (32 * i) 32"
      using le assms(1) by (intro bytes_at_mem_put_inside) simp_all
    also have "\<dots> = hash_of H (bytes_at ?m2 (lRef + i * valueSize) valueSize)"
      using assms(1) that by (rule digests_chunk)
    also have "bytes_at ?m2 (lRef + i * valueSize) valueSize =
               bytes_at (?m @ ext) (lRef + i * valueSize) valueSize"
    proof (rule bytes_at_append_left')
      from that have "i * valueSize + valueSize \<le> k * valueSize"
        by (metis Suc_leI mult_Suc mult_le_mono1 add.commute)
      with fit assms(4) show "lRef + i * valueSize + valueSize \<le> length (?m @ ext)" by simp
    qed
    also have "\<dots> = bytes_at (bytes_at (?m @ ext) lRef (byteLength values)) (i * valueSize) valueSize"
    proof (rule bytes_at_bytes_at [symmetric])
      from that have "i * valueSize + valueSize \<le> k * valueSize"
        by (metis Suc_leI mult_Suc mult_le_mono1 add.commute)
      with assms(4) show "i * valueSize + valueSize \<le> byteLength values" by simp
    qed
    finally show ?thesis using rd by simp
  qed
  have "?s4 = s\<lparr>memory := ?m3, blocks := ?bl, hashCount := hashCount s + k\<rparr>" by simp
  with run chunk assms(1) show ?thesis
    by (intro exI [of _ ?r] exI [of _ ?m3] exI [of _ ?bl]) simp
qed

section \<open>Building the rows\<close>

lemma same_outside_refl [simp]: "same_outside lo hi m m"
  by (simp add: same_outside_def)

lemma same_outside_trans:
  "same_outside lo hi m m1 \<Longrightarrow> same_outside lo hi m1 m2 \<Longrightarrow> same_outside lo hi m m2"
  by (simp add: same_outside_def)

lemma same_outside_mono:
  "same_outside lo hi m m' \<Longrightarrow> lo' \<le> lo \<Longrightarrow> hi \<le> hi' \<Longrightarrow> same_outside lo' hi' m m'"
  by (auto simp: same_outside_def)

lemma same_outside_mem_put:
  "a + length bs \<le> length m \<Longrightarrow> lo \<le> a \<Longrightarrow> a + length bs \<le> hi \<Longrightarrow>
   same_outside lo hi m (mem_put m a bs)"
  by (auto simp: same_outside_def nth_mem_put)

lemma same_outside_length: "same_outside lo hi m m' \<Longrightarrow> length m' = length m"
  by (simp add: same_outside_def)

lemma same_outside_bytes_at:
  assumes "same_outside lo hi m m'" "a + n \<le> length m" "a + n \<le> lo \<or> hi \<le> a"
  shows "bytes_at m' a n = bytes_at m a n"
proof (rule nth_equalityI)
  show "length (bytes_at m' a n) = length (bytes_at m a n)"
    using assms by (simp add: same_outside_def)
next
  fix k assume "k < length (bytes_at m' a n)"
  with assms have k: "k < n" by (simp add: same_outside_def)
  with assms show "bytes_at m' a n ! k = bytes_at m a n ! k"
    by (auto simp: nth_bytes_at same_outside_def)
qed

lemma hashValues2_run:
  assumes "prim_total H" "B + 64 * j \<le> length (memory s)"
  shows "\<exists>m'. hashValues2 H (int B + 64 * (int j - 1)) (int B + 32 * (int j - 1)) 64 j s =
                 (Inr (), s\<lparr>memory := m', hashCount := hashCount s + j\<rparr>) \<and>
              same_outside B (B + 32 * j) (memory s) m' \<and>
              (\<forall>i. 1 \<le> i \<and> i < j \<longrightarrow>
                 bytes_at m' (B + 32 * i) 32 = hash_of H (bytes_at m' (B + 64 * i) 64))"
  using assms(2)
proof (induction j arbitrary: s)
  case 0
  have "s\<lparr>memory := memory s, hashCount := hashCount s + 0\<rparr> = s" by simp
  then show ?case by (intro exI [of _ "memory s"]) simp
next
  case (Suc j)
  let ?m = "memory s"
  let ?d = "hash_of H (bytes_at ?m (B + 64 * j) 64)"
  let ?m1 = "mem_put ?m (B + 32 * j) ?d"
  let ?s1 = "s\<lparr>memory := ?m1, hashCount := Suc (hashCount s)\<rparr>"
  from Suc.prems have b: "B + 64 * j + 64 \<le> length ?m" "B + 32 * j + 32 \<le> length ?m" by simp_all
  have h: "hash H (B + 64 * j) 64 (B + 32 * j) s = (Inr (), ?s1)"
    using hash_total [OF assms(1) b] .
  have len1: "length ?m1 = length ?m" using b assms(1) by simp
  from Suc.prems len1 have "B + 64 * j \<le> length (memory ?s1)" by simp
  from Suc.IH [OF this] obtain m' where
    run: "hashValues2 H (int B + 64 * (int j - 1)) (int B + 32 * (int j - 1)) 64 j ?s1 =
            (Inr (), ?s1\<lparr>memory := m', hashCount := hashCount ?s1 + j\<rparr>)"
    and out: "same_outside B (B + 32 * j) ?m1 m'"
    and heap: "\<forall>i. 1 \<le> i \<and> i < j \<longrightarrow>
                 bytes_at m' (B + 32 * i) 32 = hash_of H (bytes_at m' (B + 64 * i) 64)"
    by auto
  have addr: "int B + 64 * (int (Suc j) - 1) = int (B + 64 * j)"
    "int B + 32 * (int (Suc j) - 1) = int (B + 32 * j)"
    "int (B + 64 * j) - int (64::nat) = int B + 64 * (int j - 1)"
    "int (B + 32 * j) - int DIGEST_SIZE = int B + 32 * (int j - 1)"
    by (simp_all add: DIGEST_SIZE_def)
  have neg: "(int (B + 64 * j) < 0 \<or> int (B + 32 * j) < 0) = False" by simp
  have step: "hashValues2 H (int B + 64 * (int (Suc j) - 1)) (int B + 32 * (int (Suc j) - 1)) 64 (Suc j) s =
          (Inr (), ?s1\<lparr>memory := m', hashCount := hashCount ?s1 + j\<rparr>)"
    by (simp only: addr hashValues2.simps neg if_False nat_int h andThen_Inr run)
  have fin: "?s1\<lparr>memory := m', hashCount := hashCount ?s1 + j\<rparr> =
             s\<lparr>memory := m', hashCount := hashCount s + Suc j\<rparr>" by simp
  have out1: "same_outside B (B + 32 * Suc j) ?m ?m1"
    using b assms(1) by (intro same_outside_mem_put) simp_all
  have out2: "same_outside B (B + 32 * Suc j) ?m m'"
    using out1 same_outside_mono [OF out, of B "B + 32 * Suc j"]
    by (auto intro: same_outside_trans)
  have heap': "bytes_at m' (B + 32 * i) 32 = hash_of H (bytes_at m' (B + 64 * i) 64)"
    if "1 \<le> i" "i < Suc j" for i
  proof (cases "i < j")
    case True
    with that heap show ?thesis by simp
  next
    case False
    with that have ij: "i = j" "1 \<le> j" by simp_all
    have "bytes_at m' (B + 32 * j) 32 = bytes_at ?m1 (B + 32 * j) 32"
      using out b len1 by (intro same_outside_bytes_at [of B "B + 32 * j"]) simp_all
    also have "\<dots> = ?d"
      using bytes_at_mem_put_same [of "B + 32 * j" ?d ?m] b assms(1) by simp
    finally have lhs: "bytes_at m' (B + 32 * j) 32 = ?d" .
    have "bytes_at m' (B + 64 * j) 64 = bytes_at ?m1 (B + 64 * j) 64"
      using out b len1 by (intro same_outside_bytes_at [of B "B + 32 * j"]) simp_all
    also have "\<dots> = bytes_at ?m (B + 64 * j) 64"
      using b ij assms(1) by (intro bytes_at_mem_put_other) simp_all
    finally show ?thesis using lhs ij by simp
  qed
  show ?case
    using step fin out2 heap' by (intro exI [of _ m']) simp
qed

lemma mem_put_Nil [simp]: "mem_put m a [] = m"
  by (simp add: mem_put_def)

lemma fillNull_run:
  assumes "length np = 32"
  shows "r + 32 * j \<le> length (memory s) \<Longrightarrow>
         fillNull np r (r + 32 * j) s =
           (Inr (r + 32 * j), s\<lparr>memory := mem_put (memory s) r (concat (replicate j np))\<rparr>)"
proof (induction j arbitrary: r s)
  case 0
  show ?case by (subst fillNull.simps) simp
next
  case (Suc j)
  let ?s1 = "s\<lparr>memory := mem_put (memory s) r np\<rparr>"
  from Suc.prems assms have b: "r + length np \<le> length (memory s)" by simp
  have set: "mem_set np r s = (Inr (), ?s1)" using b by (rule mem_set_ok)
  have "r + 32 + 32 * j \<le> length (memory ?s1)" using Suc.prems b by simp
  from Suc.IH [OF this] have IH: "fillNull np (r + 32) (r + 32 + 32 * j) ?s1 =
      (Inr (r + 32 + 32 * j), ?s1\<lparr>memory := mem_put (memory ?s1) (r + 32) (concat (replicate j np))\<rparr>)" .
  have adj: "mem_put (mem_put (memory s) r np) (r + length np) (concat (replicate j np)) =
             mem_put (memory s) r (np @ concat (replicate j np))"
    using Suc.prems assms by (intro mem_put_mem_put_adjacent) (simp add: length_concat sum_list_replicate)
  have "fillNull np r (r + 32 * Suc j) s = fillNull np (r + 32) (r + 32 + 32 * j) ?s1"
    by (subst fillNull.simps) (simp add: set DIGEST_SIZE_def add.assoc)
  with IH adj assms show ?case by (simp add: add.assoc)
qed

lemma digests_bytes_at:
  "v + n * vs \<le> len \<Longrightarrow> digests H (bytes_at m a len) v vs n = digests H m (a + v) vs n"
proof (induction n arbitrary: v)
  case 0
  show ?case by simp
next
  case (Suc n)
  from Suc.prems have "bytes_at (bytes_at m a len) v vs = bytes_at m (a + v) vs"
    by (intro bytes_at_bytes_at) simp
  moreover from Suc.prems have "digests H (bytes_at m a len) (v + vs) vs n = digests H m (a + (v + vs)) vs n"
    by (intro Suc.IH) (simp add: add.assoc)
  ultimately show ?case by (simp add: add.assoc)
qed

lemma digests_append_left:
  "v + n * vs \<le> length xs \<Longrightarrow> digests H (xs @ ys) v vs n = digests H xs v vs n"
proof (induction n arbitrary: v)
  case 0
  show ?case by simp
next
  case (Suc n)
  from Suc.prems have "bytes_at (xs @ ys) v vs = bytes_at xs v vs"
    by (intro bytes_at_append_left') simp
  moreover from Suc.prems have "digests H (xs @ ys) (v + vs) vs n = digests H xs (v + vs) vs n"
    by (intro Suc.IH) (simp add: add.assoc)
  ultimately show ?case by simp
qed

lemma row_extend:
  assumes "bytes_at m base l = pre" "base + l + length X \<le> length m"
  shows "bytes_at (mem_put m (base + l) X) base (l + length X) = pre @ X"
proof -
  have "bytes_at (mem_put m (base + l) X) base l = bytes_at m base l"
    using assms(2) by (intro bytes_at_mem_put_other) simp_all
  moreover have "bytes_at (mem_put m (base + l) X) (base + l) (length X) = X"
    using assms(2) by (intro bytes_at_mem_put_same) simp
  ultimately show ?thesis using assms(1) by (simp add: bytes_at_append)
qed

lemma lastLeafNode_run:
  assumes "prim_total H" "iRef s + (es + 32) \<le> length (memory s)" "r + 32 \<le> length (memory s)"
    "v_elementSize leaves = es" "byteLength (toBuffer leaves) = n * es" "0 < n"
    "buffer_bytes s (toBuffer leaves) = Lb" "length Lb = n * es"
  shows "lastLeafNode H leaves r s =
           (Inr (r + 32),
            s\<lparr>memory := mem_put (mem_put (memory s) (iRef s) (drop ((n - 1) * es) Lb @ NULL_BUFFER)) r
                            (hash_of H (drop ((n - 1) * es) Lb @ NULL_BUFFER)),
              hashCount := Suc (hashCount s)\<rparr>)"
proof -
  let ?m = "memory s"
  let ?ll = "drop ((n - 1) * es) Lb"
  from assms(6) have nes: "n * es = (n - 1) * es + es"
    by (cases n) simp_all
  then have lll: "length ?ll = es" using assms(8) by simp
  have start: "int (byteLength (toBuffer leaves)) - int (v_elementSize leaves) = int ((n - 1) * es)"
    using assms(4,5) nes by simp
  have ll: "slice_from (buffer_bytes s (toBuffer leaves))
              (int (byteLength (toBuffer leaves)) - int (v_elementSize leaves)) = ?ll"
  proof -
    have "(0 :: int) \<le> int ((n - 1) * es)" by (rule of_nat_0_le_iff)
    then have "\<not> int ((n - 1) * es) < 0" by (simp only: not_less)
    then have "slice_from Lb (int ((n - 1) * es)) = drop (nat (int ((n - 1) * es))) Lb"
      unfolding slice_from_def by (simp only: if_False)
    then show ?thesis unfolding start assms(7) by (simp only: nat_int)
  qed
  let ?m2 = "mem_put ?m (iRef s) (?ll @ NULL_BUFFER)"
  have lz: "length NULL_BUFFER = 32" by (simp add: NULL_BUFFER_def DIGEST_SIZE_def)
  have m2: "mem_put (mem_put ?m (iRef s) ?ll) (iRef s + length ?ll) NULL_BUFFER = ?m2"
    using assms(2) lll lz by (intro mem_put_mem_put_adjacent) simp
  have rd: "bytes_at ?m2 (iRef s) (es + 32) = ?ll @ NULL_BUFFER"
    using bytes_at_mem_put_same [of "iRef s" "?ll @ NULL_BUFFER" ?m] assms(2) lll lz by simp
  have len: "length ?m2 = length ?m" using assms(2) lll lz by simp
  have set1: "mem_set ?ll (iRef s) s = (Inr (), s\<lparr>memory := mem_put ?m (iRef s) ?ll\<rparr>)"
    using assms(2) lll by (intro mem_set_ok) simp
  have set2: "mem_set NULL_BUFFER (iRef s + es) (s\<lparr>memory := mem_put ?m (iRef s) ?ll\<rparr>) =
                (Inr (), s\<lparr>memory := ?m2\<rparr>)"
    using assms(2) lll lz m2 by (simp add: mem_set_ok)
  have h: "hash H (iRef s) (es + 32) r (s\<lparr>memory := ?m2\<rparr>) =
             (Inr (), s\<lparr>memory := mem_put ?m2 r (hash_of H (?ll @ NULL_BUFFER)),
                         hashCount := Suc (hashCount s)\<rparr>)"
    using hash_total [OF assms(1), of "iRef s" "es + 32" "s\<lparr>memory := ?m2\<rparr>" r] assms(2,3) len rd
    by simp
  show ?thesis
    using ll lll set1 set2 h
    by (simp add: lastLeafNode_def Let_def DIGEST_SIZE_def)
qed

lemma merge_total:
  assumes "wf_engine s" "prim_total H" "length a + length b \<le> iCap s"
  shows "merge H a b s =
           (Inr (hash_of H (a @ b)),
            s\<lparr>memory := mem_put (mem_put (memory s) (iRef s) (a @ b)) (oRef s) (hash_of H (a @ b)),
              hashCount := Suc (hashCount s)\<rparr>)"
proof -
  from assms(2) obtain d where "H (a @ b) = Some d" by (auto simp: prim_total_def)
  with merge_run [OF assms(1,3), of H] show ?thesis by (simp add: hash_of_def)
qed

section \<open>The run of buildMerkleNodes\<close>

lemma half_facts:
  fixes n N :: nat
  assumes nN: "n \<le> N" and Nshape: "N = 1 \<or> even N"
  shows "2 * (n div 2) \<le> n" "n div 2 \<le> N div 2" "2 * (N div 2) \<le> N"
    "N div 2 + (n div 2 + (if odd n then 1 else 0)) \<le> N"
    "n div 2 + (if odd n then 1 else 0) = (n + 1) div 2"
    "\<not> n < N \<Longrightarrow> N div 2 + (n div 2 + (if odd n then 1 else 0)) = N"
proof -
  show "2 * (n div 2) \<le> n" by presburger
  show "n div 2 \<le> N div 2" using nN by presburger
  show "2 * (N div 2) \<le> N" by presburger
  show "N div 2 + (n div 2 + (if odd n then 1 else 0)) \<le> N"
    using nN Nshape by (cases "odd n"; simp; presburger)
  show "n div 2 + (if odd n then 1 else 0) = (n + 1) div 2"
    by (cases "odd n"; simp; presburger)
  show "\<not> n < N \<Longrightarrow> N div 2 + (n div 2 + (if odd n then 1 else 0)) = N"
    using nN Nshape by (cases "odd n"; simp; presburger)
qed

lemma pow2_cases: "(2::nat) ^ d = 1 \<or> even ((2::nat) ^ d)"
  by (cases d) simp_all

lemma buildMerkleNodes_run:
  assumes H: "prim_total H" and wf: "wf_engine s"
    and vb: "wf_buffer s (toBuffer leaves)"
    and n: "v_length leaves = n" and es: "v_elementSize leaves = es"
    and bl: "byteLength (toBuffer leaves) = n * es"
    and N: "N = 2 ^ depth" and depth: "depth \<le> 26" and nN: "n \<le> N"
    and esb: "es < 2 ^ 30"
    and oddcap': "odd n \<longrightarrow> es + 32 \<le> iCap s"
    and padcap': "n < N \<longrightarrow> 64 \<le> iCap s"
  shows "\<exists>buf s'. buildMerkleNodes H depth leaves s = (Inr buf, s') \<and>
           length buf = 32 * N \<and>
           bytes_at buf (32 * (N div 2)) (32 * (N - N div 2)) =
             lowestRow H (buffer_bytes s (toBuffer leaves)) n es N \<and>
           (\<forall>j. 1 \<le> j \<and> j < N div 2 \<longrightarrow>
              bytes_at buf (32 * j) 32 = hash_of H (bytes_at buf (64 * j) 64)) \<and>
           blocks s' = blocks s \<and>
           hashCount s' = hashCount s + n div 2 + (if odd n then 1 else 0) +
                            (if n < N then 1 else 0) + N div 2"
proof -
  have oddcap: "es + 32 \<le> iCap s" if "odd n" using that oddcap' by simp
  have padcap: "64 \<le> iCap s" if "n < N" using that padcap' by simp
  define B where "B = length (memory s)"
  define P where "P = N div 2"
  define q where "q = n div 2"
  define Lb where "Lb = buffer_bytes s (toBuffer leaves)"
  define c where "c = q + (if odd n then 1 else 0)"
  have Nb: "N \<le> 2 ^ 26" unfolding N using depth by (intro power_increasing) simp_all
  have Npos: "0 < N" unfolding N by simp
  have Nshape: "N = 1 \<or> even N" unfolding N by (rule pow2_cases)
  have ar: "2 * q \<le> n" "q \<le> P" "2 * P \<le> N" "P + c \<le> N" "c = (n + 1) div 2"
    unfolding q_def P_def c_def by (rule half_facts [OF nN Nshape])+
  have full: "P + c = N" if "\<not> n < N"
    unfolding q_def P_def c_def using that by (rule half_facts(6) [OF nN Nshape])
  have scratch: "iRef s + iCap s \<le> B" "oRef s + 32 \<le> B"
    using wf by (simp_all add: wf_engine_def B_def DIGEST_SIZE_def)
  have lenLb: "length Lb = n * es"
    using vb bl unfolding Lb_def
    by (cases "toBuffer leaves") (simp_all add: wf_buffer_def byteLength_def buffer_bytes_def)
  \<comment> \<open>the 32-bit operators\<close>
  have "(1::int) * 2 ^ depth \<le> 1 * 2 ^ 26" using depth by (intro mult_left_mono power_increasing) simp_all
  then have "js_shl 1 depth = 1 * 2 ^ depth" using depth by (intro js_shl_eq) simp_all
  then have js1: "js_shl 1 depth = int N" by (simp add: N)
  have js2: "js_ushr (int N) 1 = P"
    using Nb unfolding P_def by (subst js_ushr_eq) simp_all
  have js3: "(js_and (int n) 1 \<noteq> 0) = odd n" by (rule js_and_one)
  have "(if odd n then n - 1 else n) < 2 ^ 32" using nN Nb by auto
  then have "js_ushr (int (if odd n then n - 1 else n)) 1 = (if odd n then n - 1 else n) div 2 ^ 1"
    by (intro js_ushr_eq) simp_all
  also have "\<dots> = q" unfolding q_def by (auto elim!: oddE)
  finally have js4: "js_ushr (int (if odd n then n - 1 else n)) 1 = q" .
  have "js_shl (int es) 1 = int es * 2 ^ 1" using esb by (intro js_shl_eq) simp_all
  then have js5: "js_shl (int es) 1 = int (2 * es)" by simp
  have "js_shl (int DIGEST_SIZE) 1 = int DIGEST_SIZE * 2 ^ 1"
    by (intro js_shl_eq) (simp_all add: DIGEST_SIZE_def)
  then have js6: "nat (js_shl (int DIGEST_SIZE) 1) = 64" by (simp add: DIGEST_SIZE_def)
  have ev: "((if odd n then n - 1 else n) \<noteq> n) = odd n" by (auto elim!: oddE)
  have lt: "(int n < int N) = (n < N)" by simp
  have bufLen: "nat (int N * int DIGEST_SIZE) = 32 * N" "nat (int B + int N * int DIGEST_SIZE) = B + 32 * N"
    by (simp_all add: DIGEST_SIZE_def nat_mult_distrib nat_add_distrib)
  \<comment> \<open>line 80\<close>
  define s1 where "s1 = s\<lparr>memory := memory s @ replicate (32 * N) 0, blocks := B # blocks s\<rparr>"
  have run1: "newArray (int N * int DIGEST_SIZE) s = (Inr B, s1)"
    unfolding newArray_def bufLen s1_def B_def by (simp add: DIGEST_SIZE_def)
  \<comment> \<open>lines 87 to 94\<close>
  have vb1: "wf_buffer s1 (toBuffer leaves)"
    using vb by (cases "toBuffer leaves") (simp_all add: wf_buffer_def s1_def)
  from intoMemory_run [OF vb1] obtain lRef rel ext where
    run2': "intoMemory (toBuffer leaves) s1 =
             (Inr (lRef, rel),
              s1\<lparr>memory := memory s1 @ ext, blocks := (if rel then [lRef] else []) @ blocks s1\<rparr>)"
    and fit': "lRef + byteLength (toBuffer leaves) \<le> length (memory s1) + length ext"
    and lRef: "lRef = (case toBuffer leaves of Host bs \<Rightarrow> length (memory s1) | Resident a k \<Rightarrow> a)"
    and rd': "bytes_at (memory s1 @ ext) lRef (byteLength (toBuffer leaves)) =
              buffer_bytes s1 (toBuffer leaves)"
    by blast
  define s2 where
    "s2 = s1\<lparr>memory := memory s1 @ ext, blocks := (if rel then [lRef] else []) @ blocks s1\<rparr>"
  have run2: "intoMemory (toBuffer leaves) s1 = (Inr (lRef, rel), s2)"
    unfolding s2_def by (rule run2')
  have len2: "length (memory s2) = B + 32 * N + length ext"
    by (simp add: s2_def s1_def B_def)
  have fit: "lRef + n * es \<le> length (memory s2)"
    using fit' bl by (simp add: s2_def s1_def B_def)
  have disj: "lRef + n * es \<le> B \<or> B + 32 * N \<le> lRef"
    using lRef vb bl
    by (cases "toBuffer leaves") (simp_all add: wf_buffer_def byteLength_def s1_def B_def)
  have same1: "buffer_bytes s1 (toBuffer leaves) = Lb"
    using vb unfolding Lb_def
    by (cases "toBuffer leaves")
       (simp_all add: wf_buffer_def buffer_bytes_def s1_def bytes_at_append_left')
  have rdL: "bytes_at (memory s2) lRef (n * es) = Lb"
    using rd' same1 bl by (simp add: s2_def)
  \<comment> \<open>line 95\<close>
  define D where "D = digests H Lb 0 (2 * es) q"
  have lenD: "length D = 32 * q" unfolding D_def using H by simp
  have "q * (2 * es) \<le> n * es" using ar(1) by (simp add: mult.assoc [symmetric] mult.commute [of q 2])
  then have qes: "0 + q * (2 * es) \<le> n * es" by simp
  have Dm: "digests H (memory s2) lRef (2 * es) q = D"
    using digests_bytes_at [OF qes, of H "memory s2" lRef] rdL by (simp add: D_def)
  define s3 where
    "s3 = s2\<lparr>memory := mem_put (memory s2) (B + 32 * P) D, hashCount := hashCount s2 + q\<rparr>"
  have run3: "hashValues1 H lRef (B + P * DIGEST_SIZE) (int (2 * es)) q s2 =
                (Inr (B + 32 * P + 32 * q), s3)"
  proof -
    have "lRef + q * (2 * es) \<le> length (memory s2)" using qes fit by linarith
    moreover have "B + 32 * P + 32 * q \<le> length (memory s2)" using ar len2 by simp
    moreover have "lRef + q * (2 * es) \<le> B + 32 * P \<or> B + 32 * P + 32 * q \<le> lRef"
      using disj qes ar by linarith
    ultimately have step: "hashValues1 H lRef (B + 32 * P) (int (2 * es)) q s2 =
           (Inr (B + 32 * P + 32 * q),
            s2\<lparr>memory := mem_put (memory s2) (B + 32 * P) (digests H (memory s2) lRef (2 * es) q),
               hashCount := hashCount s2 + q\<rparr>)"
      by (intro hashValues1_run [OF H])
    have eq: "B + P * DIGEST_SIZE = B + 32 * P" by (simp add: DIGEST_SIZE_def)
    show ?thesis unfolding eq s3_def using step [unfolded Dm] .
  qed
  have len3: "length (memory s3) = length (memory s2)"
    using ar len2 lenD by (simp add: s3_def)
  have row3: "bytes_at (memory s3) (B + 32 * P) (32 * q) = D"
    using bytes_at_mem_put_same [of "B + 32 * P" D "memory s2"] ar len2 lenD by (simp add: s3_def)
  \<comment> \<open>lines 98 to 100\<close>
  define s4 where "s4 = s3\<lparr>blocks := B # blocks s\<rparr>"
  have blocks3: "blocks s3 = (if rel then [lRef] else []) @ B # blocks s"
    by (simp add: s3_def s2_def s1_def)
  have run4: "(if rel then release lRef s3 else (Inr (), s3)) = (Inr (), s4)"
    using blocks3 by (cases rel) (simp_all add: release_def s4_def)
  have fields4: "memory s4 = memory s3" "iRef s4 = iRef s" "oRef s4 = oRef s" "iCap s4 = iCap s"
    "hashCount s4 = hashCount s + q"
    by (simp_all add: s4_def s3_def s2_def s1_def)
  have rdL4: "buffer_bytes s4 (toBuffer leaves) = Lb"
  proof (cases "toBuffer leaves")
    case (Host bs)
    then show ?thesis by (simp add: buffer_bytes_def Lb_def)
  next
    case (Resident a k)
    with vb bl have ak: "a + k \<le> B" by (simp add: wf_buffer_def B_def)
    have "bytes_at (memory s4) a k = bytes_at (memory s2) a k"
      unfolding fields4 s3_def using ak ar len2 lenD
      by (simp add: bytes_at_mem_put_other)
    also have "\<dots> = bytes_at (memory s) a k"
      using ak by (simp add: s2_def s1_def B_def bytes_at_append_left')
    finally show ?thesis using Resident by (simp add: buffer_bytes_def Lb_def)
  qed
  \<comment> \<open>lines 103 to 110\<close>
  define ll where "ll = drop ((n - 1) * es) Lb @ NULL_BUFFER"
  define oddpart where "oddpart = (if odd n then hash_of H ll else [])"
  define s5 where
    "s5 = (if odd n
           then s4\<lparr>memory := mem_put (mem_put (memory s4) (iRef s4) ll) (B + 32 * P + 32 * q)
                                (hash_of H ll),
                    hashCount := Suc (hashCount s4)\<rparr>
           else s4)"
  have oddfit: "P + q + 1 \<le> N" if "odd n"
    using that ar unfolding c_def by simp
  have lenll: "length ll = es + 32" if "odd n"
  proof -
    from that have "0 < n" by (auto elim: oddE)
    then have "n * es = (n - 1) * es + es" by (cases n) simp_all
    then show ?thesis using lenLb by (simp add: ll_def NULL_BUFFER_def DIGEST_SIZE_def)
  qed
  have run5: "(if odd n then lastLeafNode H leaves (B + 32 * P + 32 * q) s4
               else (Inr (B + 32 * P + 32 * q), s4)) = (Inr (B + 32 * P + 32 * c), s5)"
  proof (cases "odd n")
    case True
    then have pos: "0 < n" by (auto elim: oddE)
    have "iRef s4 + (es + 32) \<le> length (memory s4)"
      using oddcap [OF True] scratch len2 len3 fields4 by simp
    moreover have "B + 32 * P + 32 * q + 32 \<le> length (memory s4)"
      using oddfit [OF True] len2 len3 fields4 by simp
    ultimately have "lastLeafNode H leaves (B + 32 * P + 32 * q) s4 =
        (Inr (B + 32 * P + 32 * q + 32),
         s4\<lparr>memory := mem_put (mem_put (memory s4) (iRef s4) (drop ((n - 1) * es) Lb @ NULL_BUFFER))
                          (B + 32 * P + 32 * q)
                          (hash_of H (drop ((n - 1) * es) Lb @ NULL_BUFFER)),
            hashCount := Suc (hashCount s4)\<rparr>)"
      using es bl pos rdL4 lenLb by (intro lastLeafNode_run [OF H])
    with True show ?thesis by (simp add: s5_def c_def ll_def)
  next
    case False
    then show ?thesis by (simp add: s5_def c_def)
  qed
  have fields5: "iRef s5 = iRef s" "oRef s5 = oRef s" "iCap s5 = iCap s" "blocks s5 = B # blocks s"
    "hashCount s5 = hashCount s + q + (if odd n then 1 else 0)"
    using fields4 by (simp_all add: s5_def s4_def)
  have len5: "length (memory s5) = length (memory s2)"
  proof (cases "odd n")
    case True
    have "iRef s + length ll \<le> length (memory s3)"
      using oddcap [OF True] lenll [OF True] scratch len2 len3 by simp
    moreover have "B + 32 * P + 32 * q + 32 \<le> length (memory s3)"
      using oddfit [OF True] len2 len3 by simp
    ultimately show ?thesis using True H len3 by (simp add: s5_def fields4)
  next
    case False
    then show ?thesis using len3 by (simp add: s5_def fields4)
  qed
  have row5: "bytes_at (memory s5) (B + 32 * P) (32 * c) = D @ oddpart"
  proof (cases "odd n")
    case True
    let ?m4 = "mem_put (memory s3) (iRef s) ll"
    have b1: "iRef s + length ll \<le> length (memory s3)"
      using oddcap [OF True] lenll [OF True] scratch len2 len3 by simp
    have "bytes_at ?m4 (B + 32 * P) (32 * q) = bytes_at (memory s3) (B + 32 * P) (32 * q)"
      using b1 oddcap [OF True] lenll [OF True] scratch len2 len3 ar
      by (intro bytes_at_mem_put_other) simp_all
    then have pre: "bytes_at ?m4 (B + 32 * P) (32 * q) = D" using row3 by simp
    have "B + 32 * P + 32 * q + length (hash_of H ll) \<le> length ?m4"
      using oddfit [OF True] b1 len2 len3 H by simp
    from row_extend [OF pre this] H have
      "bytes_at (mem_put ?m4 (B + 32 * P + 32 * q) (hash_of H ll)) (B + 32 * P) (32 * q + 32) =
         D @ hash_of H ll" by simp
    moreover have "32 * c = 32 * q + 32" using True by (simp add: c_def)
    ultimately show ?thesis using True
      by (simp add: s5_def fields4 oddpart_def)
  next
    case False
    then show ?thesis using row3 by (simp add: s5_def fields4 c_def oddpart_def)
  qed
  \<comment> \<open>lines 113 to 121\<close>
  define np where "np = hash_of H (NULL_BUFFER @ NULL_BUFFER)"
  define fill where "fill = (if n < N then concat (replicate (N - P - c) np) else [])"
  define s6 where
    "s6 = (if n < N
           then s5\<lparr>memory := mem_put (mem_put (mem_put (memory s5) (iRef s5)
                                           (NULL_BUFFER @ NULL_BUFFER)) (oRef s5) np)
                                (B + 32 * P + 32 * c) (concat (replicate (N - P - c) np)),
                    hashCount := Suc (hashCount s5)\<rparr>
           else s5)"
  have lennp: "length np = 32" unfolding np_def using H by simp
  have lenzz: "length (NULL_BUFFER @ NULL_BUFFER) = 64"
    by (simp add: NULL_BUFFER_def DIGEST_SIZE_def)
  have wf5: "wf_engine s5"
    using scratch len5 len2 by (simp add: wf_engine_def fields5 DIGEST_SIZE_def)
  have run6: "(if n < N then nullLeaves H B (int N * int DIGEST_SIZE) (B + 32 * P + 32 * c) s5
               else (Inr (B + 32 * P + 32 * c), s5)) = (Inr (B + 32 * N), s6)"
  proof (cases "n < N")
    case True
    let ?m5 = "mem_put (mem_put (memory s5) (iRef s5) (NULL_BUFFER @ NULL_BUFFER)) (oRef s5) np"
    let ?s5' = "s5\<lparr>memory := ?m5, hashCount := Suc (hashCount s5)\<rparr>"
    have "length NULL_BUFFER + length NULL_BUFFER \<le> iCap s5"
      using padcap [OF True] lenzz by (simp add: fields5)
    from merge_total [OF wf5 H this]
    have m: "merge H NULL_BUFFER NULL_BUFFER s5 = (Inr np, ?s5')" by (simp add: np_def)
    have len5': "length ?m5 = length (memory s2)"
      using scratch padcap [OF True] len5 len2 lenzz lennp by (simp add: fields5)
    have stop: "B + 32 * P + 32 * c + 32 * (N - P - c) = B + 32 * N" using ar by simp
    have "B + 32 * P + 32 * c + 32 * (N - P - c) \<le> length (memory ?s5')"
      using len5' len2 ar by simp
    from fillNull_run [OF lennp this]
    have f: "fillNull np (B + 32 * P + 32 * c) (B + 32 * N) ?s5' =
               (Inr (B + 32 * N),
                ?s5'\<lparr>memory := mem_put ?m5 (B + 32 * P + 32 * c) (concat (replicate (N - P - c) np))\<rparr>)"
      unfolding stop by simp
    show ?thesis using True m f by (simp add: nullLeaves_def bufLen s6_def)
  next
    case False
    with full [OF False] show ?thesis
      by (simp add: s6_def add.assoc flip: distrib_left)
  qed
  have fields6: "blocks s6 = B # blocks s"
    "hashCount s6 = hashCount s + q + (if odd n then 1 else 0) + (if n < N then 1 else 0)"
    using fields5 by (simp_all add: s6_def)
  have len6: "length (memory s6) = length (memory s2)"
  proof (cases "n < N")
    case True
    have "length (concat (replicate (N - P - c) np)) = 32 * (N - P - c)"
      using lennp by (simp add: length_concat sum_list_replicate)
    then show ?thesis
      using True scratch padcap [OF True] len5 len2 lenzz lennp ar
      by (simp add: s6_def fields5)
  next
    case False
    then show ?thesis using len5 by (simp add: s6_def)
  qed
  have row6: "bytes_at (memory s6) (B + 32 * P) (32 * (N - P)) = D @ oddpart @ fill"
  proof (cases "n < N")
    case True
    let ?m5a = "mem_put (memory s5) (iRef s) (NULL_BUFFER @ NULL_BUFFER)"
    let ?m5 = "mem_put ?m5a (oRef s) np"
    have la: "length ?m5a = length (memory s2)"
      using scratch padcap [OF True] len5 len2 lenzz by simp
    have "bytes_at ?m5a (B + 32 * P) (32 * c) = bytes_at (memory s5) (B + 32 * P) (32 * c)"
      using scratch padcap [OF True] len5 len2 lenzz ar
      by (intro bytes_at_mem_put_other) simp_all
    moreover have "bytes_at ?m5 (B + 32 * P) (32 * c) = bytes_at ?m5a (B + 32 * P) (32 * c)"
      using scratch la len2 lennp ar
      by (intro bytes_at_mem_put_other) simp_all
    ultimately have pre: "bytes_at ?m5 (B + 32 * P) (32 * c) = D @ oddpart"
      using row5 by simp
    have lf: "length (concat (replicate (N - P - c) np)) = 32 * (N - P - c)"
      using lennp by (simp add: length_concat sum_list_replicate)
    have "B + 32 * P + 32 * c + length (concat (replicate (N - P - c) np)) \<le> length ?m5"
      using lf la scratch len2 lennp ar by simp
    from row_extend [OF pre this] lf ar True show ?thesis
      by (simp add: s6_def fields5 fill_def algebra_simps)
  next
    case False
    from full [OF False] have "N - P = c" by simp
    with False row5 show ?thesis by (simp add: s6_def fill_def)
  qed
  \<comment> \<open>lines 124 to 126\<close>
  have "\<exists>m7. hashValues2 H (int B + js_shl ((int P - 1) * int DIGEST_SIZE) 1)
                 (int B + (int P - 1) * int DIGEST_SIZE) (nat (js_shl (int DIGEST_SIZE) 1)) P s6 =
                 (Inr (), s6\<lparr>memory := m7, hashCount := hashCount s6 + P\<rparr>) \<and>
              same_outside B (B + 32 * P) (memory s6) m7 \<and>
              (\<forall>i. 1 \<le> i \<and> i < P \<longrightarrow>
                 bytes_at m7 (B + 32 * i) 32 = hash_of H (bytes_at m7 (B + 64 * i) 64))"
  proof (cases "P = 0")
    case True
    have "s6\<lparr>memory := memory s6, hashCount := hashCount s6 + 0\<rparr> = s6" by simp
    with True show ?thesis by (intro exI [of _ "memory s6"]) simp
  next
    case False
    have "P \<le> 2 ^ 25" using Nb unfolding P_def by simp
    then have "(int P - 1) * int DIGEST_SIZE * 2 ^ 1 < 2 ^ 31"
      by (simp add: DIGEST_SIZE_def)
    moreover have "0 \<le> (int P - 1) * int DIGEST_SIZE" using False by simp
    ultimately have "js_shl ((int P - 1) * int DIGEST_SIZE) 1 = (int P - 1) * int DIGEST_SIZE * 2 ^ 1"
      by (intro js_shl_eq) simp_all
    then have a: "int B + js_shl ((int P - 1) * int DIGEST_SIZE) 1 = int B + 64 * (int P - 1)"
      "int B + (int P - 1) * int DIGEST_SIZE = int B + 32 * (int P - 1)"
      by (simp_all add: DIGEST_SIZE_def)
    have "B + 64 * P \<le> length (memory s6)" using len6 len2 ar by simp
    from hashValues2_run [OF H this] show ?thesis unfolding a js6 .
  qed
  then obtain m7 where
    run7': "hashValues2 H (int B + js_shl ((int P - 1) * int DIGEST_SIZE) 1)
                 (int B + (int P - 1) * int DIGEST_SIZE) (nat (js_shl (int DIGEST_SIZE) 1)) P s6 =
                 (Inr (), s6\<lparr>memory := m7, hashCount := hashCount s6 + P\<rparr>)"
    and out7: "same_outside B (B + 32 * P) (memory s6) m7"
    and heap7: "\<And>i. 1 \<le> i \<Longrightarrow> i < P \<Longrightarrow>
                 bytes_at m7 (B + 32 * i) 32 = hash_of H (bytes_at m7 (B + 64 * i) 64)"
    by blast
  define s7 where "s7 = s6\<lparr>memory := m7, hashCount := hashCount s6 + P\<rparr>"
  have run7: "hashValues2 H (int B + js_shl ((int P - 1) * int DIGEST_SIZE) 1)
                 (int B + (int P - 1) * int DIGEST_SIZE) (nat (js_shl (int DIGEST_SIZE) 1)) P s6 =
                 (Inr (), s7)"
    unfolding s7_def by (rule run7')
  have len7: "length m7 = length (memory s2)"
    using same_outside_length [OF out7] len6 by simp
  \<comment> \<open>lines 129 to 131\<close>
  define buf where "buf = subarray (memory s7) B (nat (int B + int N * int DIGEST_SIZE))"
  define s8 where "s8 = s7\<lparr>blocks := blocks s\<rparr>"
  have run8: "release B s7 = (Inr (), s8)"
    using fields6 by (simp add: release_def s7_def s8_def)
  have run: "buildMerkleNodes H depth leaves s = (Inr buf, s8)"
    by (simp only: buildMerkleNodes_def Let_def n es js1 js2 js3 js4 js5 ev lt
          run1 run2 run3 run4 run5 run6 run7 run8 andThen_Inr prod.case buf_def)
  have buf: "buf = bytes_at m7 B (32 * N)"
    by (simp add: buf_def subarray_def bufLen s7_def)
  have lenbuf: "length buf = 32 * N" using len7 len2 by (simp add: buf)
  have "bytes_at buf (32 * P) (32 * (N - P)) = bytes_at m7 (B + 32 * P) (32 * (N - P))"
    unfolding buf using ar by (intro bytes_at_bytes_at) simp
  also have "\<dots> = bytes_at (memory s6) (B + 32 * P) (32 * (N - P))"
    using out7 len6 len2 ar by (intro same_outside_bytes_at [of B "B + 32 * P"]) simp_all
  also have "\<dots> = lowestRow H Lb n es N"
    unfolding row6 by (simp add: lowestRow_def D_def oddpart_def fill_def ll_def np_def q_def P_def ar)
  finally have row: "bytes_at buf (32 * P) (32 * (N - P)) = lowestRow H Lb n es N" .
  have heap: "bytes_at buf (32 * j) 32 = hash_of H (bytes_at buf (64 * j) 64)"
    if "1 \<le> j" "j < P" for j
  proof -
    from that ar have j: "64 * j + 64 \<le> 32 * N" "32 * j + 32 \<le> 32 * N" by simp_all
    have "bytes_at buf (32 * j) 32 = bytes_at m7 (B + 32 * j) 32"
      unfolding buf using j by (intro bytes_at_bytes_at) simp
    also have "\<dots> = hash_of H (bytes_at m7 (B + 64 * j) 64)" using that by (rule heap7)
    also have "bytes_at m7 (B + 64 * j) 64 = bytes_at buf (64 * j) 64"
      unfolding buf using j by (intro bytes_at_bytes_at [symmetric]) simp
    finally show ?thesis .
  qed
  have "blocks s8 = blocks s" by (simp add: s8_def)
  moreover have "hashCount s8 = hashCount s + n div 2 + (if odd n then 1 else 0) +
                            (if n < N then 1 else 0) + N div 2"
    using fields6 by (simp add: s8_def s7_def q_def P_def)
  ultimately show ?thesis
    using run lenbuf row heap unfolding P_def Lb_def
    by (intro exI [of _ buf] exI [of _ s8]) simp
qed

section \<open>Claims about buildMerkleNodes\<close>

lemma element_eq:
  "element s v i = bytes_at (buffer_bytes s (toBuffer v)) (i * v_elementSize v) (v_elementSize v)"
  by (simp add: element_def)

lemma lowestRow_pair:
  assumes "prim_total H" "i < n div 2"
  shows "bytes_at (lowestRow H Lb n es N) (32 * i) 32 =
           hash_of H (bytes_at Lb (2 * i * es) es @ bytes_at Lb ((2 * i + 1) * es) es)"
proof -
  let ?D = "digests H Lb 0 (2 * es) (n div 2)"
  from assms have "32 * i + 32 \<le> length ?D" by simp
  then have "bytes_at (lowestRow H Lb n es N) (32 * i) 32 = bytes_at ?D (32 * i) 32"
    unfolding lowestRow_def by (rule bytes_at_append_left')
  also have "\<dots> = hash_of H (bytes_at Lb (0 + i * (2 * es)) (2 * es))"
    using assms by (rule digests_chunk)
  also have "bytes_at Lb (0 + i * (2 * es)) (2 * es) =
             bytes_at Lb (2 * i * es) es @ bytes_at Lb ((2 * i + 1) * es) es"
  proof -
    have "2 * es = es + es" "0 + i * (2 * es) = 2 * i * es" "2 * i * es + es = (2 * i + 1) * es"
      by simp_all
    with bytes_at_append [of Lb "2 * i * es" es es] show ?thesis by (simp only:)
  qed
  finally show ?thesis .
qed

lemma lowestRow_odd:
  assumes "prim_total H" "odd n"
  shows "bytes_at (lowestRow H Lb n es N) (32 * (n div 2)) 32 =
           hash_of H (drop ((n - 1) * es) Lb @ NULL_BUFFER)"
proof -
  let ?D = "digests H Lb 0 (2 * es) (n div 2)"
  let ?X = "hash_of H (drop ((n - 1) * es) Lb @ NULL_BUFFER)"
  let ?rest = "(if n < N then concat (replicate (N - N div 2 - (n + 1) div 2)
                              (hash_of H (NULL_BUFFER @ NULL_BUFFER))) else [])"
  have row: "lowestRow H Lb n es N = ?D @ (?X @ ?rest)"
    using assms(2) by (simp add: lowestRow_def)
  have "bytes_at (?D @ (?X @ ?rest)) (length ?D + 0) 32 = bytes_at (?X @ ?rest) 0 32"
    by (rule bytes_at_append_right)
  also have "\<dots> = take 32 ?X" using assms(1) by (intro bytes_at_append_left) simp
  finally show ?thesis using assms(1) row by simp
qed

lemma bytes_at_concat_replicate:
  assumes "length x = 32" "j < k"
  shows "bytes_at (concat (replicate k x)) (32 * j) 32 = x"
  using assms(2)
proof (induction k arbitrary: j)
  case 0
  then show ?case by simp
next
  case (Suc k)
  show ?case
  proof (cases j)
    case 0
    then show ?thesis using assms(1) by (simp add: bytes_at_append_left)
  next
    case (Suc i)
    with Suc.prems have "i < k" by simp
    from Suc.IH [OF this] bytes_at_append_right [of x "concat (replicate k x)" "32 * i" 32]
    show ?thesis using Suc assms(1) by simp
  qed
qed

lemma lowestRow_pad:
  assumes "prim_total H" "n < N" "(n + 1) div 2 \<le> j" "N div 2 + j < N"
  shows "bytes_at (lowestRow H Lb n es N) (32 * j) 32 = hash_of H (NULL_BUFFER @ NULL_BUFFER)"
proof -
  let ?D = "digests H Lb 0 (2 * es) (n div 2)"
  let ?X = "(if odd n then hash_of H (drop ((n - 1) * es) Lb @ NULL_BUFFER) else [])"
  let ?np = "hash_of H (NULL_BUFFER @ NULL_BUFFER)"
  let ?k = "N - N div 2 - (n + 1) div 2"
  have c: "n div 2 + (if odd n then 1 else 0) = (n + 1) div 2"
    by (cases "odd n"; simp; presburger)
  have len: "length (?D @ ?X) = 32 * ((n + 1) div 2)"
    using assms(1) c by (cases "odd n") simp_all
  have row: "lowestRow H Lb n es N = (?D @ ?X) @ concat (replicate ?k ?np)"
    using assms(2) by (simp add: lowestRow_def)
  from assms(3) obtain i where j: "j = (n + 1) div 2 + i" using le_Suc_ex by blast
  with assms(4) have i: "i < ?k" by simp
  have "bytes_at ((?D @ ?X) @ concat (replicate ?k ?np)) (length (?D @ ?X) + 32 * i) 32 =
        bytes_at (concat (replicate ?k ?np)) (32 * i) 32"
    by (rule bytes_at_append_right)
  also have "\<dots> = ?np" using assms(1) i by (intro bytes_at_concat_replicate) simp_all
  finally show ?thesis unfolding row len j by (simp add: distrib_left)
qed

lemma merge_value:
  assumes "wf_engine s" "prim_total H" "length a + length b \<le> iCap s"
  shows "fst (merge H a b s) = Inr (hash_of H (a @ b))"
  using merge_total [OF assms] by simp

text \<open>
  C2. For a leaf vector of even length \<open>n = 2m\<close> and a depth with \<open>2^depth = n\<close>, the
  call returns a buffer of \<open>2^depth * 32\<close> bytes whose tail half, from byte offset
  \<open>(2^depth / 2) * 32\<close> on, holds at position \<open>i\<close> the digest
  \<open>merge(leaves[2i], leaves[2i+1])\<close>, for every \<open>i < m\<close>. The depth is at most 26, so
  that the byte offsets of the buffer fit the 32-bit shifts of lines 78 and 125; the
  element size is below \<open>2^30\<close> for the shift of line 95, and a pair of leaves fits the
  scratch region, so that \<open>merge\<close> is defined on it.
\<close>

theorem lowest_row_pairs_leaves:
  assumes "prim_total H" "wf_engine s" "wf_buffer s (toBuffer leaves)"
    and "byteLength (toBuffer leaves) = v_length leaves * v_elementSize leaves"
    and "v_length leaves = 2 * m" "2 ^ depth = 2 * m" "depth \<le> 26"
    and "2 * v_elementSize leaves \<le> iCap s" "v_elementSize leaves < 2 ^ 30"
    and "i < m"
  shows "\<exists>buf s'. buildMerkleNodes H depth leaves s = (Inr buf, s') \<and>
           length buf = 2 ^ depth * 32 \<and>
           fst (merge H (element s leaves (2 * i)) (element s leaves (2 * i + 1)) s) =
             Inr (bytes_at buf (2 ^ depth div 2 * 32 + i * 32) 32)"
proof -
  let ?n = "v_length leaves" and ?es = "v_elementSize leaves"
  let ?N = "(2::nat) ^ depth"
  let ?Lb = "buffer_bytes s (toBuffer leaves)"
  have nN: "?n \<le> ?N" "\<not> odd ?n" "\<not> ?n < ?N" using assms(5,6) by simp_all
  from buildMerkleNodes_run [OF assms(1-3) refl refl assms(4) refl assms(7) nN(1) assms(9)]
    nN(2,3)
  obtain buf s' where run: "buildMerkleNodes H depth leaves s = (Inr buf, s')"
    and len: "length buf = 32 * ?N"
    and row: "bytes_at buf (32 * (?N div 2)) (32 * (?N - ?N div 2)) = lowestRow H ?Lb ?n ?es ?N"
    by auto
  have half: "?N div 2 = m" "?n div 2 = m" using assms(5,6) by simp_all
  have lenLb: "length ?Lb = ?n * ?es"
    using assms(3,4)
    by (cases "toBuffer leaves") (simp_all add: wf_buffer_def byteLength_def buffer_bytes_def)
  have fit: "(2 * i + 1) * ?es + ?es \<le> length ?Lb"
  proof -
    from assms(10) have "2 * i + 2 \<le> 2 * m" by simp
    then have "(2 * i + 2) * ?es \<le> (2 * m) * ?es" by (rule mult_le_mono1)
    then show ?thesis using lenLb assms(5) by (simp add: algebra_simps)
  qed
  have "bytes_at buf (?N div 2 * 32 + i * 32) 32 =
        bytes_at (bytes_at buf (32 * (?N div 2)) (32 * (?N - ?N div 2))) (32 * i) 32"
    using assms(6,10) half
    by (subst bytes_at_bytes_at) (simp_all add: mult.commute)
  also have "\<dots> = hash_of H (bytes_at ?Lb (2 * i * ?es) ?es @ bytes_at ?Lb ((2 * i + 1) * ?es) ?es)"
    unfolding row using assms(1,10) half by (intro lowestRow_pair) simp_all
  finally have slot: "bytes_at buf (?N div 2 * 32 + i * 32) 32 =
      hash_of H (element s leaves (2 * i) @ element s leaves (2 * i + 1))"
    by (simp add: element_def)
  have "length (element s leaves (2 * i)) + length (element s leaves (2 * i + 1)) \<le> iCap s"
    using fit assms(8) by (simp add: element_def)
  from merge_value [OF assms(2,1) this] slot run len show ?thesis
    by (simp add: mult.commute)
qed

lemma length_leaves_bytes:
  assumes "wf_buffer s b" "byteLength b = k"
  shows "length (buffer_bytes s b) = k"
  using assms by (cases b) (simp_all add: wf_buffer_def byteLength_def buffer_bytes_def)

lemma slot_in_row:
  assumes "P + j < N"
  shows "bytes_at buf ((P + j) * 32) 32 = bytes_at (bytes_at buf (32 * P) (32 * (N - P))) (32 * j) 32"
proof -
  from assms have "32 * j + 32 \<le> 32 * (N - P)" by simp
  from bytes_at_bytes_at [OF this, of buf "32 * P"] show ?thesis
    by (simp add: algebra_simps)
qed

lemma hostLeaves_fields [simp]:
  "v_length (hostLeaves k) = k" "v_elementSize (hostLeaves k) = 32"
  by (simp_all add: hostLeaves_def)

lemma hostLeaves_buffer: "wf_buffer s (toBuffer (hostLeaves k))"
  by (simp add: hostLeaves_def wf_buffer_def)

lemma hostLeaves_bytes:
  "byteLength (toBuffer (hostLeaves k)) = v_length (hostLeaves k) * v_elementSize (hostLeaves k)"
  by (simp add: hostLeaves_def byteLength_def length_concat comp_def leaf_def sum_list_triv)

lemma iCap_engine0 [simp]: "iCap engine0 = 64"
  by (simp add: engine0_def)

theorem lowest_row_pairs_leaves_witness:
  "prim_total prim0 \<and> wf_engine engine0 \<and> v_length (hostLeaves 2) = 2 * 1 \<and>
   (2::nat) ^ 1 = 2 * 1 \<and> 2 * v_elementSize (hostLeaves 2) \<le> iCap engine0 \<and>
   (\<exists>buf s'. buildMerkleNodes prim0 1 (hostLeaves 2) engine0 = (Inr buf, s') \<and>
       length buf = 2 ^ 1 * 32 \<and>
       fst (merge prim0 (element engine0 (hostLeaves 2) (2 * 0))
              (element engine0 (hostLeaves 2) (2 * 0 + 1)) engine0) =
         Inr (bytes_at buf (2 ^ 1 div 2 * 32 + 0 * 32) 32))"
proof -
  have a: "v_length (hostLeaves 2) = 2 * 1" "(2::nat) ^ 1 = 2 * 1" "(1::nat) \<le> 26"
    "2 * v_elementSize (hostLeaves 2) \<le> iCap engine0" "v_elementSize (hostLeaves 2) < 2 ^ 30"
    "(0::nat) < 1"
    by simp_all
  show ?thesis
    by (intro conjI prim_total_prim0 wf_engine0 a
          lowest_row_pairs_leaves [OF prim_total_prim0 wf_engine0 hostLeaves_buffer
            hostLeaves_bytes a])
qed

text \<open>
  C4. For a leaf vector of odd length \<open>n\<close> (at most \<open>2^depth\<close> leaves, depth at most
  26), the slot of the lowest row that follows the \<open>n div 2\<close> slots of the leaf pairs,
  at byte offset \<open>(2^depth / 2 + n div 2) * 32\<close>, holds \<open>merge(lastLeaf, Z)\<close>, where
  \<open>lastLeaf\<close> is the last element of the vector and \<open>Z\<close> is 32 zero bytes. The last
  leaf with \<open>Z\<close> fits the scratch region, and so does \<open>Z\<close> with \<open>Z\<close> when the row
  is padded.
\<close>

theorem odd_leaf_pairs_with_zero:
  assumes "prim_total H" "wf_engine s" "wf_buffer s (toBuffer leaves)"
    and "byteLength (toBuffer leaves) = v_length leaves * v_elementSize leaves"
    and "odd (v_length leaves)" "v_length leaves \<le> 2 ^ depth" "depth \<le> 26"
    and "v_elementSize leaves + 32 \<le> iCap s" "v_length leaves < 2 ^ depth \<Longrightarrow> 64 \<le> iCap s"
    and "v_elementSize leaves < 2 ^ 30"
  shows "\<exists>buf s'. buildMerkleNodes H depth leaves s = (Inr buf, s') \<and>
           length buf = 2 ^ depth * 32 \<and>
           fst (merge H (element s leaves (v_length leaves - 1)) NULL_BUFFER s) =
             Inr (bytes_at buf ((2 ^ depth div 2 + v_length leaves div 2) * 32) 32)"
proof -
  let ?n = "v_length leaves" and ?es = "v_elementSize leaves"
  let ?N = "(2::nat) ^ depth"
  let ?Lb = "buffer_bytes s (toBuffer leaves)"
  have caps: "odd ?n \<longrightarrow> ?es + 32 \<le> iCap s" "?n < ?N \<longrightarrow> 64 \<le> iCap s"
    using assms(8,9) by simp_all
  from buildMerkleNodes_run [OF assms(1-3) refl refl assms(4) refl assms(7,6,10) caps]
  obtain buf s' where run: "buildMerkleNodes H depth leaves s = (Inr buf, s')"
    and len: "length buf = 32 * ?N"
    and row: "bytes_at buf (32 * (?N div 2)) (32 * (?N - ?N div 2)) = lowestRow H ?Lb ?n ?es ?N"
    by auto
  have lenLb: "length ?Lb = ?n * ?es" using assms(3,4) by (rule length_leaves_bytes)
  from assms(5) have pos: "0 < ?n" by (auto elim: oddE)
  then have split: "?n * ?es = (?n - 1) * ?es + ?es" by (cases ?n) simp_all
  have last: "element s leaves (?n - 1) = drop ((?n - 1) * ?es) ?Lb"
    using lenLb split by (simp add: element_def bytes_at_def)
  have "?N = 1 \<or> even ?N" by (rule pow2_cases)
  from half_facts(4) [OF assms(6) this] assms(5)
  have inrow: "?N div 2 + ?n div 2 < ?N" by simp
  have "bytes_at buf ((?N div 2 + ?n div 2) * 32) 32 =
        bytes_at (lowestRow H ?Lb ?n ?es ?N) (32 * (?n div 2)) 32"
    using slot_in_row [OF inrow, of buf] row by simp
  also have "\<dots> = hash_of H (drop ((?n - 1) * ?es) ?Lb @ NULL_BUFFER)"
    using assms(1,5) by (rule lowestRow_odd)
  finally have slot: "bytes_at buf ((?N div 2 + ?n div 2) * 32) 32 =
      hash_of H (element s leaves (?n - 1) @ NULL_BUFFER)"
    unfolding last .
  have "length (element s leaves (?n - 1)) = ?es"
    unfolding last using lenLb split by simp
  then have "length (element s leaves (?n - 1)) + length NULL_BUFFER \<le> iCap s"
    using assms(8) by (simp add: NULL_BUFFER_def DIGEST_SIZE_def)
  from merge_value [OF assms(2,1) this] slot run len show ?thesis
    by (simp add: mult.commute)
qed

theorem odd_leaf_pairs_with_zero_witness:
  "prim_total prim0 \<and> wf_engine engine0 \<and> odd (v_length (hostLeaves 3)) \<and>
   v_length (hostLeaves 3) \<le> 2 ^ 2 \<and> v_elementSize (hostLeaves 3) + 32 \<le> iCap engine0 \<and>
   (\<exists>buf s'. buildMerkleNodes prim0 2 (hostLeaves 3) engine0 = (Inr buf, s') \<and>
       length buf = 2 ^ 2 * 32 \<and>
       fst (merge prim0 (element engine0 (hostLeaves 3) (v_length (hostLeaves 3) - 1))
              NULL_BUFFER engine0) =
         Inr (bytes_at buf ((2 ^ 2 div 2 + v_length (hostLeaves 3) div 2) * 32) 32))"
proof -
  have a: "odd (v_length (hostLeaves 3))" "v_length (hostLeaves 3) \<le> 2 ^ 2" "(2::nat) \<le> 26"
    "v_elementSize (hostLeaves 3) + 32 \<le> iCap engine0"
    "v_length (hostLeaves 3) < 2 ^ 2 \<Longrightarrow> 64 \<le> iCap engine0"
    "v_elementSize (hostLeaves 3) < 2 ^ 30"
    by simp_all
  show ?thesis
    by (intro conjI prim_total_prim0 wf_engine0 a
          odd_leaf_pairs_with_zero [OF prim_total_prim0 wf_engine0 hostLeaves_buffer
            hostLeaves_bytes a])
qed

text \<open>
  C5. For fewer than \<open>2^depth\<close> leaves, every slot \<open>j\<close> of the lowest row beyond the
  \<open>(n + 1) div 2\<close> slots that come from the leaves (the pairs and, for an odd \<open>n\<close>, the
  last leaf) holds the constant \<open>merge(Z, Z)\<close>.
\<close>

theorem absent_leaves_padding:
  assumes "prim_total H" "wf_engine s" "wf_buffer s (toBuffer leaves)"
    and "byteLength (toBuffer leaves) = v_length leaves * v_elementSize leaves"
    and "v_length leaves < 2 ^ depth" "depth \<le> 26"
    and "odd (v_length leaves) \<Longrightarrow> v_elementSize leaves + 32 \<le> iCap s" "64 \<le> iCap s"
    and "v_elementSize leaves < 2 ^ 30"
    and "(v_length leaves + 1) div 2 \<le> j" "2 ^ depth div 2 + j < 2 ^ depth"
  shows "\<exists>buf s'. buildMerkleNodes H depth leaves s = (Inr buf, s') \<and>
           length buf = 2 ^ depth * 32 \<and>
           fst (merge H NULL_BUFFER NULL_BUFFER s) =
             Inr (bytes_at buf ((2 ^ depth div 2 + j) * 32) 32)"
proof -
  let ?n = "v_length leaves" and ?es = "v_elementSize leaves"
  let ?N = "(2::nat) ^ depth"
  let ?Lb = "buffer_bytes s (toBuffer leaves)"
  from assms(5) have nN: "?n \<le> ?N" by simp
  have caps: "odd ?n \<longrightarrow> ?es + 32 \<le> iCap s" "?n < ?N \<longrightarrow> 64 \<le> iCap s"
    using assms(7,8) by simp_all
  from buildMerkleNodes_run [OF assms(1-3) refl refl assms(4) refl assms(6) nN assms(9) caps]
  obtain buf s' where run: "buildMerkleNodes H depth leaves s = (Inr buf, s')"
    and len: "length buf = 32 * ?N"
    and row: "bytes_at buf (32 * (?N div 2)) (32 * (?N - ?N div 2)) = lowestRow H ?Lb ?n ?es ?N"
    by auto
  have "bytes_at buf ((?N div 2 + j) * 32) 32 = bytes_at (lowestRow H ?Lb ?n ?es ?N) (32 * j) 32"
    using slot_in_row [OF assms(11), of buf] row by simp
  also have "\<dots> = hash_of H (NULL_BUFFER @ NULL_BUFFER)"
    using assms(1,5,10,11) by (rule lowestRow_pad)
  finally have slot: "bytes_at buf ((?N div 2 + j) * 32) 32 = hash_of H (NULL_BUFFER @ NULL_BUFFER)" .
  have "length NULL_BUFFER + length NULL_BUFFER \<le> iCap s"
    using assms(8) by (simp add: NULL_BUFFER_def DIGEST_SIZE_def)
  from merge_value [OF assms(2,1) this] slot run len show ?thesis
    by (simp add: mult.commute)
qed

theorem absent_leaves_padding_witness:
  "prim_total prim0 \<and> wf_engine engine0 \<and> v_length (hostLeaves 1) < 2 ^ 2 \<and>
   64 \<le> iCap engine0 \<and> (v_length (hostLeaves 1) + 1) div 2 \<le> 1 \<and> (2::nat) ^ 2 div 2 + 1 < 2 ^ 2 \<and>
   (\<exists>buf s'. buildMerkleNodes prim0 2 (hostLeaves 1) engine0 = (Inr buf, s') \<and>
       length buf = 2 ^ 2 * 32 \<and>
       fst (merge prim0 NULL_BUFFER NULL_BUFFER engine0) =
         Inr (bytes_at buf ((2 ^ 2 div 2 + 1) * 32) 32))"
proof -
  have a: "v_length (hostLeaves 1) < 2 ^ 2" "(2::nat) \<le> 26"
    "odd (v_length (hostLeaves 1)) \<Longrightarrow> v_elementSize (hostLeaves 1) + 32 \<le> iCap engine0"
    "64 \<le> iCap engine0"
    "v_elementSize (hostLeaves 1) < 2 ^ 30"
    "(v_length (hostLeaves 1) + 1) div 2 \<le> 1" "(2::nat) ^ 2 div 2 + 1 < 2 ^ 2"
    by simp_all
  show ?thesis
    by (intro conjI prim_total_prim0 wf_engine0 a
          absent_leaves_padding [OF prim_total_prim0 wf_engine0 hostLeaves_buffer
            hostLeaves_bytes a])
qed

text \<open>
  The rows above the lowest row. One round of \<open>rowAbove\<close> on the nodes \<open>2a\<close> to
  \<open>2(a + n) - 1\<close> of a heap merges the nodes \<open>2j\<close> and \<open>2j + 1\<close> for \<open>j\<close> from \<open>a\<close>
  to \<open>a + n - 1\<close>; in a heap whose nodes below \<open>P\<close> are the merge of their children
  it turns the row \<open>2^(k+1) .. 2^(k+2) - 1\<close> into the row \<open>2^k .. 2^(k+1) - 1\<close>, and
  \<open>m\<close> rounds turn the row \<open>2^m .. 2^(m+1) - 1\<close> into node 1.
\<close>

lemma rowAbove_map:
  "rowAbove H s (map f [2 * a ..< 2 * (a + n)]) =
     map (\<lambda>j. merged H s (f (2 * j)) (f (2 * j + 1))) [a ..< a + n]"
proof (induction n arbitrary: a)
  case 0
  show ?case by simp
next
  case (Suc n)
  have l: "[2 * a ..< 2 * (a + Suc n)] = (2 * a) # (2 * a + 1) # [2 * (a + 1) ..< 2 * (a + 1 + n)]"
    by (simp add: upt_conv_Cons)
  have r: "[a ..< a + Suc n] = a # [a + 1 ..< a + 1 + n]"
    by (simp add: upt_conv_Cons)
  show ?case unfolding l r using Suc.IH [of "a + 1"] by simp
qed

lemma rowAbove_level:
  assumes "\<And>j. 1 \<le> j \<Longrightarrow> j < P \<Longrightarrow> merged H s (f (2 * j)) (f (2 * j + 1)) = f j"
    and "2 ^ Suc k \<le> P"
  shows "rowAbove H s (map f [2 ^ Suc k ..< 2 ^ Suc (Suc k)]) = map f [2 ^ k ..< 2 ^ Suc k]"
proof -
  have "rowAbove H s (map f [2 * 2 ^ k ..< 2 * (2 ^ k + 2 ^ k)]) =
          map (\<lambda>j. merged H s (f (2 * j)) (f (2 * j + 1))) [2 ^ k ..< 2 ^ k + 2 ^ k]"
    by (rule rowAbove_map)
  also have "\<dots> = map f [2 ^ k ..< 2 ^ k + 2 ^ k]"
  proof (rule map_cong [OF refl])
    fix j :: nat assume "j \<in> set [2 ^ k ..< 2 ^ k + 2 ^ k]"
    then have "2 ^ k \<le> j" "j < 2 * 2 ^ k" by simp_all
    moreover have "(1::nat) \<le> 2 ^ k" by simp
    ultimately have "1 \<le> j" "j < P" using assms(2) by simp_all
    then show "merged H s (f (2 * j)) (f (2 * j + 1)) = f j" by (rule assms(1))
  qed
  finally show ?thesis by (simp add: mult_2)
qed

lemma rowAbove_to_root:
  assumes "\<And>j. 1 \<le> j \<Longrightarrow> j < P \<Longrightarrow> merged H s (f (2 * j)) (f (2 * j + 1)) = f j"
  shows "2 ^ m \<le> P \<Longrightarrow> (rowAbove H s ^^ m) (map f [2 ^ m ..< 2 ^ Suc m]) = [f 1]"
proof (induction m)
  case 0
  have "[1 ..< 2] = [1::nat]" by (simp add: upt_conv_Cons)
  then show ?case by simp
next
  case (Suc m)
  from Suc.prems have le: "2 ^ m \<le> P" by simp
  have "(rowAbove H s ^^ Suc m) (map f [2 ^ Suc m ..< 2 ^ Suc (Suc m)]) =
        (rowAbove H s ^^ m) (rowAbove H s (map f [2 ^ Suc m ..< 2 ^ Suc (Suc m)]))"
    by (simp only: funpow_Suc_right o_apply)
  also have "\<dots> = (rowAbove H s ^^ m) (map f [2 ^ m ..< 2 ^ Suc m])"
    using rowAbove_level [OF assms Suc.prems] by simp
  also have "\<dots> = [f 1]" using le by (rule Suc.IH)
  finally show ?case .
qed

text \<open>
  C3, as the code has it. The buffer has \<open>2^depth * 32\<close> bytes and is laid out as a heap
  of 32-byte slots: the lowest row takes the slots \<open>2^depth / 2\<close> to \<open>2^depth - 1\<close>,
  and every node \<open>j\<close> above it, \<open>1 \<le> j < 2^depth / 2\<close>, at byte offset \<open>j * 32\<close>,
  equals \<open>merge\<close> of its two adjacent children in the row below, the slots \<open>2j\<close> and
  \<open>2j + 1\<close>: lines 124 to 126 hand \<open>hashValues2\<close> the destination
  \<open>(parentCount - 1) * 32\<close> for the source \<open>(parentCount - 1) * 64\<close>. The root, what
  \<open>depth - 1\<close> rounds of merging adjacent nodes leave of the lowest row, is one
  32-byte element: for \<open>depth \<ge> 1\<close> it is slot 1, at byte offset 32, and for depth 0,
  where the buffer is a single slot and the lowest row is that slot, it is slot 0, at
  the front. There is no row above the lowest one for \<open>depth \<le> 1\<close>.
\<close>

theorem upper_rows_merge_children:
  assumes "prim_total H" "wf_engine s" "wf_buffer s (toBuffer leaves)"
    and "byteLength (toBuffer leaves) = v_length leaves * v_elementSize leaves"
    and "v_length leaves \<le> 2 ^ depth" "depth \<le> 26"
    and "odd (v_length leaves) \<Longrightarrow> v_elementSize leaves + 32 \<le> iCap s" "64 \<le> iCap s"
    and "v_elementSize leaves < 2 ^ 30"
  shows "\<exists>buf s'. buildMerkleNodes H depth leaves s = (Inr buf, s') \<and>
           length buf = 2 ^ depth * 32 \<and>
           (\<forall>j. 1 \<le> j \<and> j < 2 ^ depth div 2 \<longrightarrow>
              fst (merge H (slot buf (2 * j)) (slot buf (2 * j + 1)) s) = Inr (slot buf j)) \<and>
           (rowAbove H s ^^ (depth - 1)) (map (slot buf) [2 ^ depth div 2 ..< 2 ^ depth]) =
             [slot buf (if depth = 0 then 0 else 1)] \<and>
           length (slot buf (if depth = 0 then 0 else 1)) = 32"
proof -
  let ?N = "(2::nat) ^ depth"
  have caps: "odd (v_length leaves) \<longrightarrow> v_elementSize leaves + 32 \<le> iCap s"
    "v_length leaves < ?N \<longrightarrow> 64 \<le> iCap s"
    using assms(7,8) by simp_all
  from buildMerkleNodes_run [OF assms(1-3) refl refl assms(4) refl assms(6,5,9) caps]
  obtain buf s' where run: "buildMerkleNodes H depth leaves s = (Inr buf, s')"
    and len: "length buf = 32 * ?N"
    and heap: "\<forall>j. 1 \<le> j \<and> j < ?N div 2 \<longrightarrow>
                bytes_at buf (32 * j) 32 = hash_of H (bytes_at buf (64 * j) 64)"
    by auto
  have child: "fst (merge H (slot buf (2 * j)) (slot buf (2 * j + 1)) s) = Inr (slot buf j)"
    if j: "1 \<le> j" "j < ?N div 2" for j
  proof -
    from j have inb: "(2 * j + 1) * 32 + 32 \<le> length buf" using len by simp
    have eqs: "(32::nat) + 32 = 64" "2 * j * 32 + 32 = (2 * j + 1) * 32" "64 * j = 2 * j * 32"
      "32 * j = j * 32"
      by simp_all
    have "bytes_at buf (64 * j) (32 + 32) = bytes_at buf (64 * j) 32 @ bytes_at buf (64 * j + 32) 32"
      by (rule bytes_at_append)
    then have split: "bytes_at buf (64 * j) 64 =
                 bytes_at buf (2 * j * 32) 32 @ bytes_at buf ((2 * j + 1) * 32) 32"
      by (simp only: eqs)
    from heap j have "bytes_at buf (32 * j) 32 = hash_of H (bytes_at buf (64 * j) 64)"
      by blast
    then have node: "bytes_at buf (j * 32) 32 =
        hash_of H (bytes_at buf (2 * j * 32) 32 @ bytes_at buf ((2 * j + 1) * 32) 32)"
      by (simp only: split eqs(4))
    have "length (bytes_at buf (2 * j * 32) 32) + length (bytes_at buf ((2 * j + 1) * 32) 32) \<le> iCap s"
      using inb assms(8) by simp
    from merge_value [OF assms(2,1) this] node show ?thesis
      by (simp add: slot_def DIGEST_SIZE_def)
  qed
  have up: "merged H s (slot buf (2 * j)) (slot buf (2 * j + 1)) = slot buf j"
    if "1 \<le> j" "j < ?N div 2" for j
    using child [OF that] by (simp add: merged_def)
  have root: "(rowAbove H s ^^ (depth - 1)) (map (slot buf) [?N div 2 ..< ?N]) =
             [slot buf (if depth = 0 then 0 else 1)]"
  proof (cases depth)
    case 0
    have "[0 ..< 1] = [0::nat]" by (simp add: upt_conv_Cons)
    with 0 show ?thesis by simp
  next
    case (Suc m)
    then have half: "?N div 2 = 2 ^ m" "?N = 2 ^ Suc m" by simp_all
    have "(rowAbove H s ^^ m) (map (slot buf) [2 ^ m ..< 2 ^ Suc m]) = [slot buf 1]"
      using up unfolding half by (intro rowAbove_to_root [where P = "2 ^ m"]) simp_all
    with Suc show ?thesis by (simp only: half) simp
  qed
  have "(if depth = 0 then 0 else 1) * 32 + 32 \<le> length buf"
  proof (cases depth)
    case 0
    then show ?thesis using len by simp
  next
    case (Suc m)
    have "(2::nat) \<le> 2 ^ Suc m" by simp
    then show ?thesis using Suc len by simp
  qed
  then have rlen: "length (slot buf (if depth = 0 then 0 else 1)) = 32"
    by (simp add: slot_def DIGEST_SIZE_def)
  from run len child root rlen show ?thesis by (simp add: mult.commute)
qed

theorem upper_rows_merge_children_witness:
  "prim_total prim0 \<and> wf_engine engine0 \<and> v_length (hostLeaves 4) \<le> 2 ^ 2 \<and>
   64 \<le> iCap engine0 \<and>
   (\<exists>buf s'. buildMerkleNodes prim0 2 (hostLeaves 4) engine0 = (Inr buf, s') \<and>
       length buf = 2 ^ 2 * 32 \<and>
       fst (merge prim0 (slot buf (2 * 1)) (slot buf (2 * 1 + 1)) engine0) = Inr (slot buf 1) \<and>
       (rowAbove prim0 engine0 ^^ (2 - 1)) (map (slot buf) [2 ^ 2 div 2 ..< 2 ^ 2]) = [slot buf 1] \<and>
       length (slot buf 1) = 32) \<and>
   v_length (hostLeaves 1) \<le> 2 ^ 0 \<and>
   (\<exists>buf s'. buildMerkleNodes prim0 0 (hostLeaves 1) engine0 = (Inr buf, s') \<and>
       length buf = 2 ^ 0 * 32 \<and>
       (rowAbove prim0 engine0 ^^ (0 - 1)) (map (slot buf) [2 ^ 0 div 2 ..< 2 ^ 0]) = [slot buf 0] \<and>
       length (slot buf 0) = 32)"
proof -
  have a: "v_length (hostLeaves 4) \<le> 2 ^ 2" "(2::nat) \<le> 26"
    "odd (v_length (hostLeaves 4)) \<Longrightarrow> v_elementSize (hostLeaves 4) + 32 \<le> iCap engine0"
    "64 \<le> iCap engine0"
    "v_elementSize (hostLeaves 4) < 2 ^ 30"
    by simp_all
  have b: "v_length (hostLeaves 1) \<le> 2 ^ 0" "(0::nat) \<le> 26"
    "odd (v_length (hostLeaves 1)) \<Longrightarrow> v_elementSize (hostLeaves 1) + 32 \<le> iCap engine0"
    "64 \<le> iCap engine0"
    "v_elementSize (hostLeaves 1) < 2 ^ 30"
    by simp_all
  have t2: "\<exists>buf s'. buildMerkleNodes prim0 2 (hostLeaves 4) engine0 = (Inr buf, s') \<and>
       length buf = 2 ^ 2 * 32 \<and>
       (\<forall>j. 1 \<le> j \<and> j < 2 ^ 2 div 2 \<longrightarrow>
          fst (merge prim0 (slot buf (2 * j)) (slot buf (2 * j + 1)) engine0) = Inr (slot buf j)) \<and>
       (rowAbove prim0 engine0 ^^ (2 - 1)) (map (slot buf) [2 ^ 2 div 2 ..< 2 ^ 2]) =
         [slot buf (if (2::nat) = 0 then 0 else 1)] \<and>
       length (slot buf (if (2::nat) = 0 then 0 else 1)) = 32"
    by (rule upper_rows_merge_children [OF prim_total_prim0 wf_engine0 hostLeaves_buffer
            hostLeaves_bytes a(1,2) _ a(4,5)]) simp
  then obtain buf s' where
    r: "buildMerkleNodes prim0 2 (hostLeaves 4) engine0 = (Inr buf, s')"
    and l: "length buf = 2 ^ 2 * 32"
    and c: "\<forall>j. 1 \<le> j \<and> j < 2 ^ 2 div 2 \<longrightarrow>
          fst (merge prim0 (slot buf (2 * j)) (slot buf (2 * j + 1)) engine0) = Inr (slot buf j)"
    and rt: "(rowAbove prim0 engine0 ^^ (2 - 1)) (map (slot buf) [2 ^ 2 div 2 ..< 2 ^ 2]) =
         [slot buf (if (2::nat) = 0 then 0 else 1)]"
    and rl: "length (slot buf (if (2::nat) = 0 then 0 else 1)) = 32"
    by blast
  have c1: "fst (merge prim0 (slot buf (2 * 1)) (slot buf (2 * 1 + 1)) engine0) = Inr (slot buf 1)"
    using c [THEN spec, of 1] by simp
  have rt1: "(rowAbove prim0 engine0 ^^ (2 - 1)) (map (slot buf) [2 ^ 2 div 2 ..< 2 ^ 2]) = [slot buf 1]"
    using rt by simp
  have rl1: "length (slot buf 1) = 32" using rl by simp
  have two: "\<exists>buf s'. buildMerkleNodes prim0 2 (hostLeaves 4) engine0 = (Inr buf, s') \<and>
       length buf = 2 ^ 2 * 32 \<and>
       fst (merge prim0 (slot buf (2 * 1)) (slot buf (2 * 1 + 1)) engine0) = Inr (slot buf 1) \<and>
       (rowAbove prim0 engine0 ^^ (2 - 1)) (map (slot buf) [2 ^ 2 div 2 ..< 2 ^ 2]) = [slot buf 1] \<and>
       length (slot buf 1) = 32"
    using r l c1 rt1 rl1 by (intro exI conjI)
  have t0: "\<exists>buf s'. buildMerkleNodes prim0 0 (hostLeaves 1) engine0 = (Inr buf, s') \<and>
       length buf = 2 ^ 0 * 32 \<and>
       (\<forall>j. 1 \<le> j \<and> j < 2 ^ 0 div 2 \<longrightarrow>
          fst (merge prim0 (slot buf (2 * j)) (slot buf (2 * j + 1)) engine0) = Inr (slot buf j)) \<and>
       (rowAbove prim0 engine0 ^^ (0 - 1)) (map (slot buf) [2 ^ 0 div 2 ..< 2 ^ 0]) =
         [slot buf (if (0::nat) = 0 then 0 else 1)] \<and>
       length (slot buf (if (0::nat) = 0 then 0 else 1)) = 32"
    by (rule upper_rows_merge_children [OF prim_total_prim0 wf_engine0 hostLeaves_buffer
            hostLeaves_bytes b(1,2) _ b(4,5)]) simp
  then obtain buf0 s0 where
    r0: "buildMerkleNodes prim0 0 (hostLeaves 1) engine0 = (Inr buf0, s0)"
    and l0: "length buf0 = 2 ^ 0 * 32"
    and rt0: "(rowAbove prim0 engine0 ^^ (0 - 1)) (map (slot buf0) [2 ^ 0 div 2 ..< 2 ^ 0]) =
         [slot buf0 (if (0::nat) = 0 then 0 else 1)]"
    and rl0: "length (slot buf0 (if (0::nat) = 0 then 0 else 1)) = 32"
    by blast
  have rt0': "(rowAbove prim0 engine0 ^^ (0 - 1)) (map (slot buf0) [2 ^ 0 div 2 ..< 2 ^ 0]) = [slot buf0 0]"
    using rt0 by (simp only: refl if_True)
  have rl0': "length (slot buf0 0) = 32" using rl0 by (simp only: refl if_True)
  have zero: "\<exists>buf s'. buildMerkleNodes prim0 0 (hostLeaves 1) engine0 = (Inr buf, s') \<and>
       length buf = 2 ^ 0 * 32 \<and>
       (rowAbove prim0 engine0 ^^ (0 - 1)) (map (slot buf) [2 ^ 0 div 2 ..< 2 ^ 0]) = [slot buf 0] \<and>
       length (slot buf 0) = 32"
    using r0 l0 rt0' rl0' by (intro exI conjI)
  from two zero show ?thesis
    by (intro conjI prim_total_prim0 wf_engine0 a b)
qed

text \<open>
  C3 as the spec has it fails: for four leaves and depth 2 the call returns a buffer, the
  root \<open>merge(merge(L1, L2), merge(L3, L4))\<close> is node 1 of it, at byte offset 32, and
  the element at the front, node 0, is another value.
\<close>

theorem root_is_not_at_front:
  "fst (merge prim0 (leaf 1) (leaf 2) engine0) = Inr (replicate 32 97) \<and>
   fst (merge prim0 (leaf 3) (leaf 4) engine0) = Inr (replicate 32 225) \<and>
   fst (merge prim0 (replicate 32 97) (replicate 32 225) engine0) = Inr (replicate 32 65) \<and>
   node (buildMerkleNodes prim0 2 (hostLeaves 4) engine0) 3 = replicate 32 225 \<and>
   node (buildMerkleNodes prim0 2 (hostLeaves 4) engine0) 2 = replicate 32 97 \<and>
   node (buildMerkleNodes prim0 2 (hostLeaves 4) engine0) 1 = replicate 32 65 \<and>
   node (buildMerkleNodes prim0 2 (hostLeaves 4) engine0) 0 \<noteq> replicate 32 65"
proof -
  let ?r = "buildMerkleNodes prim0 2 (hostLeaves 4) engine0"
  let ?buf = "replicate 32 33 @ replicate 32 65 @ replicate 32 97 @ replicate 32 (225 :: byte)"
  have run: "fst ?r = Inr ?buf" by code_simp
  have n3: "node ?r 3 = replicate 32 225"
    unfolding node_def run by (simp add: bytes_at_def DIGEST_SIZE_def)
  have n2: "node ?r 2 = replicate 32 97"
    unfolding node_def run by (simp add: bytes_at_def DIGEST_SIZE_def)
  have n1: "node ?r 1 = replicate 32 65"
    unfolding node_def run by (simp add: bytes_at_def DIGEST_SIZE_def)
  have n0: "node ?r 0 \<noteq> replicate 32 65"
    unfolding node_def run by (simp add: bytes_at_def DIGEST_SIZE_def)
  have m1: "fst (merge prim0 (leaf 1) (leaf 2) engine0) = Inr (replicate 32 97)" by code_simp
  have m2: "fst (merge prim0 (leaf 3) (leaf 4) engine0) = Inr (replicate 32 225)" by code_simp
  have m3: "fst (merge prim0 (replicate 32 97) (replicate 32 225) engine0) = Inr (replicate 32 65)"
    by code_simp
  from m1 m2 m3 n3 n2 n1 n0 show ?thesis by (intro conjI)
qed

text \<open>
  C10. For depth 0 the buffer has 32 bytes, the count that is handed to the upward pass
  (\<open>parentCount\<close>) is zero, and the call hashes once in all, for the only slot: the
  slot is \<open>merge(Z, Z)\<close> for an empty leaf vector and \<open>merge(leaves[0], Z)\<close> for one
  leaf.
\<close>

theorem depth_zero_single_slot:
  assumes "prim_total H" "wf_engine s" "wf_buffer s (toBuffer leaves)"
    and "byteLength (toBuffer leaves) = v_length leaves * v_elementSize leaves"
    and "v_length leaves \<le> 1"
    and "v_length leaves = 1 \<Longrightarrow> v_elementSize leaves + 32 \<le> iCap s"
    and "v_length leaves = 0 \<Longrightarrow> 64 \<le> iCap s"
    and "v_elementSize leaves < 2 ^ 30"
  shows "\<exists>buf s'. buildMerkleNodes H 0 leaves s = (Inr buf, s') \<and>
           length buf = 32 \<and>
           js_ushr (js_shl 1 0) 1 = 0 \<and>
           hashCount s' = hashCount s + 1 \<and>
           fst (merge H (if v_length leaves = 0 then NULL_BUFFER else element s leaves 0)
                  NULL_BUFFER s) = Inr buf"
proof -
  let ?n = "v_length leaves" and ?es = "v_elementSize leaves"
  let ?Lb = "buffer_bytes s (toBuffer leaves)"
  have d: "(0::nat) \<le> 26" by simp
  have nN: "?n \<le> 2 ^ 0" using assms(5) by simp
  have caps: "odd ?n \<longrightarrow> ?es + 32 \<le> iCap s" "?n < 2 ^ 0 \<longrightarrow> 64 \<le> iCap s"
    using assms(5,6,7) by (auto elim: oddE)
  from buildMerkleNodes_run [OF assms(1-3) refl refl assms(4) refl d nN assms(8) caps]
  obtain buf s' where run: "buildMerkleNodes H 0 leaves s = (Inr buf, s')"
    and len: "length buf = 32"
    and row: "bytes_at buf 0 32 = lowestRow H ?Lb ?n ?es 1"
    and cnt: "hashCount s' = hashCount s + ?n div 2 + (if odd ?n then 1 else 0) +
                (if ?n < 1 then 1 else 0)"
    by auto
  from len row have buf: "buf = lowestRow H ?Lb ?n ?es 1" by (simp add: bytes_at_def)
  have lenLb: "length ?Lb = ?n * ?es" using assms(3,4) by (rule length_leaves_bytes)
  have "js_shl 1 0 = 1 * 2 ^ 0" by (intro js_shl_eq) simp_all
  then have "js_ushr (js_shl 1 0) 1 = js_ushr (int 1) 1" by simp
  also have "\<dots> = 1 div 2 ^ 1" by (intro js_ushr_eq) simp_all
  finally have pc: "js_ushr (js_shl 1 0) 1 = 0" by simp
  from assms(5) consider "?n = 0" | "?n = 1" by linarith
  then show ?thesis
  proof cases
    case 1
    have "length NULL_BUFFER + length NULL_BUFFER \<le> iCap s"
      using assms(7) [OF 1] by (simp add: NULL_BUFFER_def DIGEST_SIZE_def)
    from merge_value [OF assms(2,1) this] 1 run len pc cnt buf show ?thesis
      by (simp add: lowestRow_def)
  next
    case 2
    have first: "element s leaves 0 = drop 0 ?Lb"
      using lenLb 2 by (simp add: element_def bytes_at_def)
    have "length (element s leaves 0) + length NULL_BUFFER \<le> iCap s"
      using assms(6) [OF 2] lenLb 2 by (simp add: first NULL_BUFFER_def DIGEST_SIZE_def)
    from merge_value [OF assms(2,1) this] 2 run len pc cnt buf first show ?thesis
      by (simp add: lowestRow_def)
  qed
qed

theorem depth_zero_single_slot_witness:
  "prim_total prim0 \<and> wf_engine engine0 \<and> v_length (hostLeaves 1) \<le> 1 \<and>
   (\<exists>buf s'. buildMerkleNodes prim0 0 (hostLeaves 1) engine0 = (Inr buf, s') \<and>
       length buf = 32 \<and>
       js_ushr (js_shl 1 0) 1 = 0 \<and>
       hashCount s' = hashCount engine0 + 1 \<and>
       fst (merge prim0 (if v_length (hostLeaves 1) = 0 then NULL_BUFFER
                         else element engine0 (hostLeaves 1) 0)
              NULL_BUFFER engine0) = Inr buf) \<and>
   v_length (hostLeaves 0) \<le> 1 \<and>
   (\<exists>buf s'. buildMerkleNodes prim0 0 (hostLeaves 0) engine0 = (Inr buf, s') \<and>
       length buf = 32 \<and>
       js_ushr (js_shl 1 0) 1 = 0 \<and>
       hashCount s' = hashCount engine0 + 1 \<and>
       fst (merge prim0 (if v_length (hostLeaves 0) = 0 then NULL_BUFFER
                         else element engine0 (hostLeaves 0) 0)
              NULL_BUFFER engine0) = Inr buf)"
proof -
  have a: "v_length (hostLeaves 1) \<le> 1"
    "v_length (hostLeaves 1) = 1 \<Longrightarrow> v_elementSize (hostLeaves 1) + 32 \<le> iCap engine0"
    "v_length (hostLeaves 1) = 0 \<Longrightarrow> 64 \<le> iCap engine0"
    "v_elementSize (hostLeaves 1) < 2 ^ 30"
    by simp_all
  have b: "v_length (hostLeaves 0) \<le> 1"
    "v_length (hostLeaves 0) = 1 \<Longrightarrow> v_elementSize (hostLeaves 0) + 32 \<le> iCap engine0"
    "v_length (hostLeaves 0) = 0 \<Longrightarrow> 64 \<le> iCap engine0"
    "v_elementSize (hostLeaves 0) < 2 ^ 30"
    by simp_all
  show ?thesis
    by (intro conjI prim_total_prim0 wf_engine0 a(1) b(1)
          depth_zero_single_slot [OF prim_total_prim0 wf_engine0 hostLeaves_buffer
            hostLeaves_bytes a]
          depth_zero_single_slot [OF prim_total_prim0 wf_engine0 hostLeaves_buffer
            hostLeaves_bytes b])
qed

text \<open>
  C6. For a positive \<open>valueSize\<close> that divides \<open>values.byteLength\<close>, the vector that
  \<open>digestValues(values, valueSize)\<close> returns has \<open>byteLength / valueSize\<close> elements of
  32 bytes, and element \<open>i\<close> is \<open>digest\<close> of record \<open>i\<close>, the \<open>valueSize\<close> bytes at
  \<open>i * valueSize\<close> of \<open>values\<close>. A record below 4096 bytes fits the scratch region,
  so that \<open>digest\<close> is defined on it.
\<close>

theorem digestValues_elementwise:
  assumes "prim_total H" "wf_engine s" "wf_buffer s values"
    and "0 < valueSize" "byteLength values = k * valueSize"
    and "valueSize \<le> iCap s \<or> 4096 \<le> valueSize"
    and "i < k"
  shows "\<exists>v s'. digestValues H values valueSize s = (Inr v, s') \<and>
           v_length v = k \<and> v_elementSize v = 32 \<and> byteLength (toBuffer v) = k * 32 \<and>
           fst (digest H (bytes_at (buffer_bytes s values) (i * valueSize) valueSize) s) =
             Inr (element s' v i)"
proof -
  from digestValues_run [OF assms(1,3,4,5)] obtain resRef m' bl where
    run: "digestValues H values valueSize s =
             (Inr \<lparr>v_length = k, v_elementSize = 32, toBuffer = Resident resRef (32 * k)\<rparr>,
              s\<lparr>memory := m', blocks := bl, hashCount := hashCount s + k\<rparr>)"
    and fit: "resRef + 32 * k \<le> length m'"
    and chunk: "\<forall>i<k. bytes_at m' (resRef + 32 * i) 32 =
                    hash_of H (bytes_at (buffer_bytes s values) (i * valueSize) valueSize)"
    by blast
  let ?v = "\<lparr>v_length = k, v_elementSize = 32, toBuffer = Resident resRef (32 * k)\<rparr>"
  let ?s' = "s\<lparr>memory := m', blocks := bl, hashCount := hashCount s + k\<rparr>"
  let ?rec = "bytes_at (buffer_bytes s values) (i * valueSize) valueSize"
  from assms(7) have "32 * i + 32 \<le> 32 * k" by simp
  from bytes_at_bytes_at [OF this, of m' resRef]
  have "element ?s' ?v i = bytes_at m' (resRef + 32 * i) 32"
    by (simp add: element_def buffer_bytes_def mult.commute)
  with chunk assms(7) have el: "element ?s' ?v i = hash_of H ?rec" by simp
  have "length (buffer_bytes s values) = k * valueSize"
    using assms(3,5) by (rule length_leaves_bytes)
  moreover from assms(7) have "i * valueSize + valueSize \<le> k * valueSize"
    by (metis Suc_leI mult_Suc mult_le_mono1 add.commute)
  ultimately have "length ?rec = valueSize" by simp
  with assms(6) have "length ?rec \<le> iCap s \<or> 4096 \<le> length ?rec" by simp
  from digest_total [OF assms(2,1) this] el run show ?thesis
    by (simp add: byteLength_def mult.commute)
qed

theorem digestValues_elementwise_witness:
  "prim_total prim0 \<and> wf_engine engine0 \<and> (0::nat) < 16 \<and>
   byteLength (Host (leaf 1 @ leaf 2)) = 4 * 16 \<and> (2::nat) < 4 \<and>
   (\<exists>v s'. digestValues prim0 (Host (leaf 1 @ leaf 2)) 16 engine0 = (Inr v, s') \<and>
       v_length v = 4 \<and> v_elementSize v = 32 \<and> byteLength (toBuffer v) = 4 * 32 \<and>
       fst (digest prim0 (bytes_at (buffer_bytes engine0 (Host (leaf 1 @ leaf 2))) (2 * 16) 16)
              engine0) = Inr (element s' v 2))"
proof -
  have w: "wf_buffer engine0 (Host (leaf 1 @ leaf 2))" by (simp add: wf_buffer_def)
  have a: "(0::nat) < 16" "byteLength (Host (leaf 1 @ leaf 2)) = 4 * 16"
    "16 \<le> iCap engine0 \<or> (4096::nat) \<le> 16" "(2::nat) < 4"
    by (simp_all add: byteLength_def leaf_def)
  show ?thesis
    by (intro conjI prim_total_prim0 wf_engine0 a(1,2,4)
          digestValues_elementwise [OF prim_total_prim0 wf_engine0 w a])
qed

end
